theory Spec2Isabelle
  imports Complex_Main "HOL-Library.Product_Lexorder"
begin

section \<open>Python values and built-ins used by \<open>trailing_leg_count.py\<close>\<close>

text \<open>
  The script reads the cells of a spreadsheet as text and computes with Python
  \<open>int\<close> and \<open>float\<close>. Every exception the script can raise is a value of
  \<open>error\<close>; a function that can raise returns \<open>error + 'a\<close>, \<open>Inl\<close> being
  the exception.
\<close>

datatype error =
  StopIteration | KeyError | IndexError | ValueError | TypeError | ZeroDivisionError

text \<open>
  A cell value is a Python \<open>str\<close> or \<open>None\<close> (\<open>v.text\<close> of an empty
  \<open>v\<close> element is \<open>None\<close>).
\<close>

type_synonym pyval = "string option"
type_synonym row = "pyval list"
type_synonym period = "int \<times> int"

text \<open>
  A \<open>float\<close> is a finite number (the rational it denotes), an infinity or NaN.
  The sign of a zero is not kept: \<open>-0.0 == 0.0\<close> in Python, both are false and
  both raise as a divisor.
\<close>

datatype pyfloat = Fin rat | PInf | NInf | NaN

text \<open>
  The built-ins \<open>int(s)\<close> and \<open>float(s)\<close> on a \<open>str\<close>, and the rounding of
  an exact finite result to a \<open>float\<close> (which may overflow to an infinity), are
  not code of the script: they are the fields of a \<open>python\<close> record that every
  function takes. \<open>None\<close> from a parser is Python's \<open>ValueError\<close>.
\<close>

record python =
  int_of_str :: "string \<Rightarrow> int option"
  float_of_str :: "string \<Rightarrow> pyfloat option"
  rnd :: "rat \<Rightarrow> pyfloat"

definition py_int :: "python \<Rightarrow> pyval \<Rightarrow> error + int" where
  "py_int P v =
     (case v of
        None \<Rightarrow> Inl TypeError
      | Some s \<Rightarrow> (case int_of_str P s of None \<Rightarrow> Inl ValueError | Some n \<Rightarrow> Inr n))"

definition py_float :: "python \<Rightarrow> pyval \<Rightarrow> error + pyfloat" where
  "py_float P v =
     (case v of
        None \<Rightarrow> Inl TypeError
      | Some s \<Rightarrow> (case float_of_str P s of None \<Rightarrow> Inl ValueError | Some x \<Rightarrow> Inr x))"

text \<open>Truth value of a cell: \<open>None\<close> and the empty string are false.\<close>

definition truthy :: "pyval \<Rightarrow> bool" where
  "truthy v = (case v of None \<Rightarrow> False | Some s \<Rightarrow> s \<noteq> [])"

text \<open>
  Float arithmetic: the exact result of two finite operands is rounded; NaN
  propagates; \<open>inf - inf\<close>, \<open>0 * inf\<close> and \<open>inf / inf\<close> are NaN. Python
  raises \<open>ZeroDivisionError\<close> for every division by a zero.
\<close>

fun fneg :: "pyfloat \<Rightarrow> pyfloat" where
  "fneg (Fin x) = Fin (- x)"
| "fneg PInf = NInf"
| "fneg NInf = PInf"
| "fneg NaN = NaN"

fun fpositive :: "pyfloat \<Rightarrow> bool" where
  "fpositive (Fin x) = (0 < x)"
| "fpositive PInf = True"
| "fpositive NInf = False"
| "fpositive NaN = False"

fun fadd :: "python \<Rightarrow> pyfloat \<Rightarrow> pyfloat \<Rightarrow> pyfloat" where
  "fadd P (Fin x) (Fin y) = rnd P (x + y)"
| "fadd P NaN y = NaN"
| "fadd P x NaN = NaN"
| "fadd P PInf NInf = NaN"
| "fadd P NInf PInf = NaN"
| "fadd P PInf y = PInf"
| "fadd P NInf y = NInf"
| "fadd P x PInf = PInf"
| "fadd P x NInf = NInf"

definition fsub :: "python \<Rightarrow> pyfloat \<Rightarrow> pyfloat \<Rightarrow> pyfloat" where
  "fsub P x y = fadd P x (fneg y)"

fun fmul :: "python \<Rightarrow> pyfloat \<Rightarrow> pyfloat \<Rightarrow> pyfloat" where
  "fmul P (Fin x) (Fin y) = rnd P (x * y)"
| "fmul P NaN y = NaN"
| "fmul P x NaN = NaN"
| "fmul P x y =
     (if x = Fin 0 \<or> y = Fin 0 then NaN
      else if fpositive x = fpositive y then PInf else NInf)"

text \<open>The quotient by a divisor that is not zero.\<close>

fun fquot :: "python \<Rightarrow> pyfloat \<Rightarrow> pyfloat \<Rightarrow> pyfloat" where
  "fquot P (Fin x) (Fin y) = rnd P (x / y)"
| "fquot P NaN y = NaN"
| "fquot P x NaN = NaN"
| "fquot P (Fin x) y = Fin 0"
| "fquot P x (Fin y) = (if fpositive x = (0 < y) then PInf else NInf)"
| "fquot P x y = NaN"

definition fdiv :: "python \<Rightarrow> pyfloat \<Rightarrow> pyfloat \<Rightarrow> error + pyfloat" where
  "fdiv P x y = (if y = Fin 0 then Inl ZeroDivisionError else Inr (fquot P x y))"

text \<open>\<open>x < y\<close> and \<open>x <= y\<close> on floats: every comparison with NaN is false.\<close>

fun flt :: "pyfloat \<Rightarrow> pyfloat \<Rightarrow> bool" where
  "flt (Fin x) (Fin y) = (x < y)"
| "flt NaN y = False"
| "flt x NaN = False"
| "flt x NInf = False"
| "flt NInf y = True"
| "flt PInf y = False"
| "flt x PInf = True"

definition fle :: "pyfloat \<Rightarrow> pyfloat \<Rightarrow> bool" where
  "fle x y = (flt x y \<or> (x = y \<and> x \<noteq> NaN))"

text \<open>\<open>xs[i]\<close> on a list: a negative index counts from the end.\<close>

definition py_index :: "'a list \<Rightarrow> int \<Rightarrow> error + 'a" where
  "py_index xs i =
     (if 0 \<le> i \<and> i < int (length xs) then Inr (xs ! nat i)
      else if i < 0 \<and> - int (length xs) \<le> i then Inr (xs ! nat (int (length xs) + i))
      else Inl IndexError)"

text \<open>
  A \<open>dict\<close> is an association list in insertion order with one entry per key:
  \<open>d[k] = v\<close> replaces the value of a present key in place and appends a new key.
\<close>

fun dict_set :: "('k \<times> 'v) list \<Rightarrow> 'k \<Rightarrow> 'v \<Rightarrow> ('k \<times> 'v) list" where
  "dict_set [] k v = [(k, v)]"
| "dict_set ((k', v') # d) k v =
     (if k' = k then (k, v) # d else (k', v') # dict_set d k v)"

definition dict_get :: "('k \<times> 'v) list \<Rightarrow> 'k \<Rightarrow> error + 'v" where
  "dict_get d k = (case map_of d k of None \<Rightarrow> Inl KeyError | Some v \<Rightarrow> Inr v)"

text \<open>\<open>{h: i for i, h in enumerate(header)}\<close>: a repeated name keeps its last position.\<close>

definition column_index :: "row \<Rightarrow> (pyval \<times> nat) list" where
  "column_index header = fold (\<lambda>(i, h) d. dict_set d h i) (enumerate 0 header) []"

text \<open>\<open>row[idx[name]]\<close>: \<open>KeyError\<close> for an unknown column, \<open>IndexError\<close> for a short row.\<close>

definition cell_at :: "(pyval \<times> nat) list \<Rightarrow> row \<Rightarrow> string \<Rightarrow> error + pyval" where
  "cell_at idx r name =
     (case dict_get idx (Some name) of
        Inl e \<Rightarrow> Inl e
      | Inr i \<Rightarrow> py_index r (int i))"

section \<open>The row stream: \<open>iter_rows\<close>\<close>

text \<open>
  A worksheet part is the list of its \<open>row\<close> elements, each the list of its
  \<open>c\<close> children. Of a cell the reader looks at the attribute \<open>t\<close> and at the
  text of the first \<open>v\<close> child: \<open>cvalue = None\<close> when there is no \<open>v\<close>,
  \<open>Some None\<close> when \<open>v\<close> has no text.
\<close>

record cell =
  ctype :: "string option"
  cvalue :: "string option option"

type_synonym xrow = "cell list"

text \<open>An archive maps the name of a part to its rows; \<open>zf.read\<close> of a missing part is a \<open>KeyError\<close>.\<close>

type_synonym archive = "string \<Rightarrow> xrow list option"

definition SHEETS :: "(string \<times> string) list" where
  "SHEETS = [(''All'', ''worksheets/sheet1.xml''), (''Live'', ''worksheets/sheet2.xml'')]"

definition raw_text :: "cell \<Rightarrow> pyval" where
  "raw_text c = (case cvalue c of None \<Rightarrow> Some [] | Some t \<Rightarrow> t)"

definition resolve_cell :: "python \<Rightarrow> string list \<Rightarrow> cell \<Rightarrow> error + pyval" where
  "resolve_cell P SHARED c =
     (let val = raw_text c
      in if ctype c = Some ''s'' \<and> truthy val then
           (case py_int P val of
              Inl e \<Rightarrow> Inl e
            | Inr i \<Rightarrow> (case py_index SHARED i of Inl e \<Rightarrow> Inl e | Inr s \<Rightarrow> Inr (Some s)))
         else Inr val)"

fun resolve_row :: "python \<Rightarrow> string list \<Rightarrow> xrow \<Rightarrow> error + row" where
  "resolve_row P SHARED [] = Inr []"
| "resolve_row P SHARED (c # cs) =
     (case resolve_cell P SHARED c of
        Inl e \<Rightarrow> Inl e
      | Inr v \<Rightarrow> (case resolve_row P SHARED cs of Inl e \<Rightarrow> Inl e | Inr vs \<Rightarrow> Inr (v # vs)))"

text \<open>
  The generator yields one row per \<open>row\<close> element and stops at the first element
  whose cells raise: its items are the rows yielded, followed by the exception if
  there is one.
\<close>

fun yield_rows :: "python \<Rightarrow> string list \<Rightarrow> xrow list \<Rightarrow> (error + row) list" where
  "yield_rows P SHARED [] = []"
| "yield_rows P SHARED (r # rs) =
     (case resolve_row P SHARED r of
        Inl e \<Rightarrow> [Inl e]
      | Inr vs \<Rightarrow> Inr vs # yield_rows P SHARED rs)"

definition iter_rows :: "python \<Rightarrow> string list \<Rightarrow> archive \<Rightarrow> string \<Rightarrow> (error + row) list" where
  "iter_rows P SHARED zf sheet =
     (case dict_get SHEETS sheet of
        Inl e \<Rightarrow> [Inl e]
      | Inr part \<Rightarrow>
          (case zf (''xl/'' @ part) of
             None \<Rightarrow> [Inl KeyError]
           | Some rs \<Rightarrow> yield_rows P SHARED rs))"

section \<open>Monthly weighted average\<close>

record acc =
  ws :: pyfloat
  cnt :: pyfloat

definition acc0 :: acc where
  "acc0 = \<lparr>ws = Fin 0, cnt = Fin 0\<rparr>"

text \<open>Lines 38 to 41 of the loop body: the period, the weight and the metric of a row.\<close>

definition row_entry :: "python \<Rightarrow> (pyval \<times> nat) list \<Rightarrow> row \<Rightarrow> error + (period \<times> pyfloat \<times> pyfloat)" where
  "row_entry P idx r =
     (case cell_at idx r ''bet_year'' of Inl e \<Rightarrow> Inl e | Inr yc \<Rightarrow>
      case py_int P yc of Inl e \<Rightarrow> Inl e | Inr y \<Rightarrow>
      case cell_at idx r ''bet_month'' of Inl e \<Rightarrow> Inl e | Inr mc \<Rightarrow>
      case py_int P mc of Inl e \<Rightarrow> Inl e | Inr m \<Rightarrow>
      case cell_at idx r ''count_of_bets'' of Inl e \<Rightarrow> Inl e | Inr cc \<Rightarrow>
      case py_float P cc of Inl e \<Rightarrow> Inl e | Inr count \<Rightarrow>
      case cell_at idx r ''avg_leg_count_inclusiveofstraightbets'' of Inl e \<Rightarrow> Inl e | Inr val \<Rightarrow>
      if truthy val then
        (case py_float P val of Inl e \<Rightarrow> Inl e | Inr avg \<Rightarrow> Inr ((y, m), count, avg))
      else Inr ((y, m), count, Fin 0))"

text \<open>
  Lines 42 and 43: \<open>stats[ym]\<close> creates the zero accumulator of a new period, then
  both fields are added to.
\<close>

definition accumulate :: "python \<Rightarrow> (period \<times> acc) list \<Rightarrow> period \<times> pyfloat \<times> pyfloat
    \<Rightarrow> (period \<times> acc) list" where
  "accumulate P stats e =
     (case e of (ym, count, avg) \<Rightarrow>
        let d = (case map_of stats ym of None \<Rightarrow> acc0 | Some d \<Rightarrow> d)
        in dict_set stats ym \<lparr>ws = fadd P (ws d) (fmul P avg count), cnt = fadd P (cnt d) count\<rparr>)"

fun mwa_loop :: "python \<Rightarrow> (pyval \<times> nat) list \<Rightarrow> (period \<times> acc) list \<Rightarrow> (error + row) list
    \<Rightarrow> error + (period \<times> acc) list" where
  "mwa_loop P idx stats [] = Inr stats"
| "mwa_loop P idx stats (Inl e # rows) = Inl e"
| "mwa_loop P idx stats (Inr r # rows) =
     (case row_entry P idx r of
        Inl e \<Rightarrow> Inl e
      | Inr en \<Rightarrow> mwa_loop P idx (accumulate P stats en) rows)"

text \<open>
  Line 44: \<open>d['ws'] / d['cnt'] if d['cnt'] else 0.0\<close>. A float is false when it
  is zero, so the division is by a divisor that is not zero and cannot raise.
\<close>

definition finalize :: "python \<Rightarrow> acc \<Rightarrow> pyfloat" where
  "finalize P d = (if cnt d \<noteq> Fin 0 then fquot P (ws d) (cnt d) else Fin 0)"

definition monthly_weighted_avg :: "python \<Rightarrow> string list \<Rightarrow> archive \<Rightarrow> string
    \<Rightarrow> error + (period \<times> pyfloat) list" where
  "monthly_weighted_avg P SHARED zf sheet =
     (case iter_rows P SHARED zf sheet of
        [] \<Rightarrow> Inl StopIteration
      | Inl e # rows \<Rightarrow> Inl e
      | Inr header # rows \<Rightarrow>
          (case mwa_loop P (column_index header) [] rows of
             Inl e \<Rightarrow> Inl e
           | Inr stats \<Rightarrow> Inr (map (\<lambda>(ym, d). (ym, finalize P d)) stats)))"

section \<open>Trailing average\<close>

text \<open>
  The loop of \<open>trailing_average\<close> over \<open>sorted(series)\<close>: the queue \<open>q\<close>,
  the running \<open>total\<close> and the \<open>result\<close> dictionary are the state.
  \<open>total / len(q)\<close> raises \<open>ZeroDivisionError\<close> on an empty queue.
\<close>

fun ta_loop :: "python \<Rightarrow> (period \<times> pyfloat) list \<Rightarrow> int \<Rightarrow> pyfloat list \<Rightarrow> pyfloat
    \<Rightarrow> (period \<times> pyfloat) list \<Rightarrow> period list \<Rightarrow> error + (period \<times> pyfloat) list" where
  "ta_loop P series window q tot result [] = Inr result"
| "ta_loop P series window q tot result (ym # yms) =
     (case dict_get series ym of
        Inl e \<Rightarrow> Inl e
      | Inr avg \<Rightarrow>
          let q1 = q @ [avg];
              tot1 = fadd P tot avg;
              q2 = (if window < int (length q1) then tl q1 else q1);
              tot2 = (if window < int (length q1) then fsub P tot1 (hd q1) else tot1)
          in (case fdiv P tot2 (Fin (of_nat (length q2))) of
                Inl e \<Rightarrow> Inl e
              | Inr v \<Rightarrow> ta_loop P series window q2 tot2 (dict_set result ym v) yms))"

definition trailing_average :: "python \<Rightarrow> (period \<times> pyfloat) list \<Rightarrow> int
    \<Rightarrow> error + (period \<times> pyfloat) list" where
  "trailing_average P series window =
     ta_loop P series window [] (Fin 0) [] (sort (map fst series))"

section \<open>Top operators\<close>

text \<open>
  \<open>sorted(xs, key=k, reverse=True)\<close> compares keys with \<open><\<close> only and is
  stable: CPython reverses the list, sorts it in ascending order leaving equal keys
  in place, and reverses the result. The ascending sort is written here as an
  insertion sort on \<open><\<close>; every stable sort returns the same list when \<open><\<close>
  orders the keys. With a NaN among the keys \<open><\<close> is no order; a list in which
  no item is \<open><\<close> its left neighbour is left as it is, by CPython as by this
  sort.
\<close>

fun insert_key :: "('k \<Rightarrow> 'k \<Rightarrow> bool) \<Rightarrow> ('a \<Rightarrow> 'k) \<Rightarrow> 'a \<Rightarrow> 'a list \<Rightarrow> 'a list" where
  "insert_key lt k x [] = [x]"
| "insert_key lt k x (y # ys) =
     (if lt (k y) (k x) then y # insert_key lt k x ys else x # y # ys)"

definition py_sorted :: "('k \<Rightarrow> 'k \<Rightarrow> bool) \<Rightarrow> ('a \<Rightarrow> 'k) \<Rightarrow> 'a list \<Rightarrow> 'a list" where
  "py_sorted lt k xs = foldr (insert_key lt k) xs []"

definition sorted_reverse :: "('k \<Rightarrow> 'k \<Rightarrow> bool) \<Rightarrow> ('a \<Rightarrow> 'k) \<Rightarrow> 'a list \<Rightarrow> 'a list" where
  "sorted_reverse lt k xs = rev (py_sorted lt k (rev xs))"

text \<open>Lines 65 and 66: the category and the magnitude of a row.\<close>

definition top_entry :: "python \<Rightarrow> (pyval \<times> nat) list \<Rightarrow> row \<Rightarrow> error + (pyval \<times> pyfloat)" where
  "top_entry P idx r =
     (case cell_at idx r ''name'' of Inl e \<Rightarrow> Inl e | Inr name \<Rightarrow>
      case cell_at idx r ''total_bet_handle'' of Inl e \<Rightarrow> Inl e | Inr h \<Rightarrow>
      if truthy h then
        (case py_float P h of Inl e \<Rightarrow> Inl e | Inr handle \<Rightarrow> Inr (name, handle))
      else Inr (name, Fin 0))"

text \<open>Line 67: \<open>totals[name] += handle\<close> on a \<open>defaultdict(float)\<close>.\<close>

definition add_total :: "python \<Rightarrow> (pyval \<times> pyfloat) list \<Rightarrow> pyval \<times> pyfloat
    \<Rightarrow> (pyval \<times> pyfloat) list" where
  "add_total P totals en =
     (case en of (name, handle) \<Rightarrow>
        dict_set totals name
          (fadd P (case map_of totals name of None \<Rightarrow> Fin 0 | Some t \<Rightarrow> t) handle))"

fun top_loop :: "python \<Rightarrow> (pyval \<times> nat) list \<Rightarrow> row \<Rightarrow> (pyval \<times> pyfloat) list \<Rightarrow> (error + row) list
    \<Rightarrow> error + (pyval \<times> pyfloat) list" where
  "top_loop P idx header totals [] = Inr totals"
| "top_loop P idx header totals (Inl e # rows) = Inl e"
| "top_loop P idx header totals (Inr r # rows) =
     (if r = header then top_loop P idx header totals rows
      else
        case top_entry P idx r of
          Inl e \<Rightarrow> Inl e
        | Inr en \<Rightarrow> top_loop P idx header (add_total P totals en) rows)"

definition top_operators :: "python \<Rightarrow> string list \<Rightarrow> archive \<Rightarrow> row \<Rightarrow> error + pyval list" where
  "top_operators P SHARED zf header =
     (case top_loop P (column_index header) header [] (iter_rows P SHARED zf ''All'') of
        Inl e \<Rightarrow> Inl e
      | Inr totals \<Rightarrow> Inr (map fst (take 10 (sorted_reverse flt snd totals))))"

section \<open>Trailing averages per operator\<close>

fun ot_loop :: "python \<Rightarrow> (pyval \<times> nat) list \<Rightarrow> pyval list \<Rightarrow> (pyval \<times> (period \<times> acc) list) list
    \<Rightarrow> (error + row) list \<Rightarrow> error + (pyval \<times> (period \<times> acc) list) list" where
  "ot_loop P idx operators stats [] = Inr stats"
| "ot_loop P idx operators stats (Inl e # rows) = Inl e"
| "ot_loop P idx operators stats (Inr r # rows) =
     (case cell_at idx r ''name'' of Inl e \<Rightarrow> Inl e | Inr name \<Rightarrow>
        if name \<notin> set operators then ot_loop P idx operators stats rows
        else
          case row_entry P idx r of Inl e \<Rightarrow> Inl e | Inr en \<Rightarrow>
            ot_loop P idx operators
              (dict_set stats name
                 (accumulate P (case map_of stats name of None \<Rightarrow> [] | Some d \<Rightarrow> d) en))
              rows)"

text \<open>Line 88: \<open>{ym: d['ws'] / d['cnt'] for ym, d in stats[op].items()}\<close>.\<close>

fun series_of :: "python \<Rightarrow> (period \<times> acc) list \<Rightarrow> error + (period \<times> pyfloat) list" where
  "series_of P [] = Inr []"
| "series_of P ((ym, d) # ds) =
     (case fdiv P (ws d) (cnt d) of
        Inl e \<Rightarrow> Inl e
      | Inr v \<Rightarrow> (case series_of P ds of Inl e \<Rightarrow> Inl e | Inr s \<Rightarrow> Inr ((ym, v) # s)))"

fun ot_final :: "python \<Rightarrow> (pyval \<times> (period \<times> acc) list) list \<Rightarrow> (pyval \<times> (period \<times> pyfloat) list) list
    \<Rightarrow> pyval list \<Rightarrow> error + (pyval \<times> (period \<times> pyfloat) list) list" where
  "ot_final P stats trailing [] = Inr trailing"
| "ot_final P stats trailing (op # ops) =
     (case series_of P (case map_of stats op of None \<Rightarrow> [] | Some d \<Rightarrow> d) of
        Inl e \<Rightarrow> Inl e
      | Inr series \<Rightarrow>
          (case trailing_average P series 12 of
             Inl e \<Rightarrow> Inl e
           | Inr t \<Rightarrow> ot_final P stats (dict_set trailing op t) ops))"

definition operator_trailing :: "python \<Rightarrow> string list \<Rightarrow> archive \<Rightarrow> row \<Rightarrow> pyval list
    \<Rightarrow> error + (pyval \<times> (period \<times> pyfloat) list) list" where
  "operator_trailing P SHARED zf header operators =
     (case iter_rows P SHARED zf ''All'' of
        [] \<Rightarrow> Inl StopIteration
      | Inl e # rows \<Rightarrow> Inl e
      | Inr first # rows \<Rightarrow>
          (case ot_loop P (column_index header) operators [] rows of
             Inl e \<Rightarrow> Inl e
           | Inr stats \<Rightarrow> ot_final P stats [] operators))"

section \<open>The columns and cells of a row, as the specification words them\<close>

text \<open>
  The specification speaks of named columns of the header and of the values a data
  row holds there. \<open>column_of header name i\<close>: the column \<open>name\<close> stands at
  position \<open>i\<close> of the header (the last one of that name, if the header repeats
  it). A cell read as an integer, as a number, and as a number with the empty cell
  counting as \<open>0.0\<close>; \<open>None\<close> when Python's conversion fails.
\<close>

definition column_of :: "row \<Rightarrow> string \<Rightarrow> nat \<Rightarrow> bool" where
  "column_of header name i \<longleftrightarrow>
     i < length header \<and> header ! i = Some name \<and> Some name \<notin> set (drop (Suc i) header)"

definition int_cell :: "python \<Rightarrow> pyval \<Rightarrow> int option" where
  "int_cell P v = (case v of None \<Rightarrow> None | Some s \<Rightarrow> int_of_str P s)"

definition float_cell :: "python \<Rightarrow> pyval \<Rightarrow> pyfloat option" where
  "float_cell P v = (case v of None \<Rightarrow> None | Some s \<Rightarrow> float_of_str P s)"

definition float_or_zero :: "python \<Rightarrow> pyval \<Rightarrow> pyfloat option" where
  "float_or_zero P v =
     (case v of None \<Rightarrow> Some (Fin 0) | Some s \<Rightarrow> if s = [] then Some (Fin 0) else float_of_str P s)"

section \<open>The weighted average of a period, as the specification words it\<close>

text \<open>
  \<open>month_entry\<close> reads the period, the weight and the metric of a data row from
  its cells at the positions of the four columns. The entries of the data rows are
  folded in row order, from \<open>0.0\<close>: the sum of \<open>metric * weight\<close> and the sum
  of the weights over the rows of one period.
\<close>

definition month_entry :: "python \<Rightarrow> nat \<Rightarrow> nat \<Rightarrow> nat \<Rightarrow> nat \<Rightarrow> row
    \<Rightarrow> (period \<times> pyfloat \<times> pyfloat) option" where
  "month_entry P iy im ic ia r =
     (if iy < length r \<and> im < length r \<and> ic < length r \<and> ia < length r then
        (case (int_cell P (r ! iy), int_cell P (r ! im), float_cell P (r ! ic),
               float_or_zero P (r ! ia)) of
           (Some y, Some m, Some w, Some a) \<Rightarrow> Some ((y, m), w, a)
         | _ \<Rightarrow> None)
      else None)"

definition ws_step :: "python \<Rightarrow> period \<Rightarrow> period \<times> pyfloat \<times> pyfloat \<Rightarrow> pyfloat \<Rightarrow> pyfloat" where
  "ws_step P p e s = (case e of (q, count, avg) \<Rightarrow> if q = p then fadd P s (fmul P avg count) else s)"

definition wt_step :: "python \<Rightarrow> period \<Rightarrow> period \<times> pyfloat \<times> pyfloat \<Rightarrow> pyfloat \<Rightarrow> pyfloat" where
  "wt_step P p e s = (case e of (q, count, avg) \<Rightarrow> if q = p then fadd P s count else s)"

definition weighted_sum :: "python \<Rightarrow> period \<Rightarrow> (period \<times> pyfloat \<times> pyfloat) list \<Rightarrow> pyfloat" where
  "weighted_sum P p es = fold (ws_step P p) es (Fin 0)"

definition weight_total :: "python \<Rightarrow> period \<Rightarrow> (period \<times> pyfloat \<times> pyfloat) list \<Rightarrow> pyfloat" where
  "weight_total P p es = fold (wt_step P p) es (Fin 0)"

section \<open>The trailing window, as the specification words it\<close>

text \<open>
  \<open>sorted_values\<close> are the values of a series in ascending order of their
  periods. \<open>run_total\<close> is the running sum after \<open>n\<close> of them: each value is
  added, and from the moment more than \<open>w\<close> values have been queued the value
  that leaves the queue is subtracted. \<open>recent w xs i\<close> are the most recent
  \<open>min (i + 1) w\<close> of the values up to position \<open>i\<close>.
\<close>

definition sorted_values :: "(period \<times> pyfloat) list \<Rightarrow> pyfloat list" where
  "sorted_values series = map (\<lambda>k. the (map_of series k)) (sort (map fst series))"

fun run_total :: "python \<Rightarrow> nat \<Rightarrow> pyfloat list \<Rightarrow> nat \<Rightarrow> pyfloat" where
  "run_total P w vs 0 = Fin 0"
| "run_total P w vs (Suc n) =
     (let t = fadd P (run_total P w vs n) (vs ! n)
      in if w \<le> n then fsub P t (vs ! (n - w)) else t)"

definition recent :: "nat \<Rightarrow> 'a list \<Rightarrow> nat \<Rightarrow> 'a list" where
  "recent w xs i = drop (Suc i - min (Suc i) w) (take (Suc i) xs)"

definition trailing_value :: "python \<Rightarrow> nat \<Rightarrow> pyfloat list \<Rightarrow> nat \<Rightarrow> pyfloat" where
  "trailing_value P w vs i =
     fquot P (run_total P w vs (Suc i)) (Fin (of_nat (min (Suc i) w)))"

section \<open>The resolution of a cell, as the specification words it\<close>

text \<open>
  \<open>cell_error\<close> is the exception of a cell that cannot be resolved: a cell flagged
  \<open>s\<close> with a non-empty text that is no integer (\<open>ValueError\<close>), or an integer
  \<open>k\<close> outside \<open>-N \<le> k < N\<close>, \<open>N\<close> the length of the shared-string
  table (\<open>IndexError\<close>).
\<close>

definition cell_error :: "python \<Rightarrow> string list \<Rightarrow> cell \<Rightarrow> error option" where
  "cell_error P SHARED c =
     (case (ctype c, raw_text c) of
        (Some t, Some s) \<Rightarrow>
          if t = ''s'' \<and> s \<noteq> [] then
            (case int_of_str P s of
               None \<Rightarrow> Some ValueError
             | Some k \<Rightarrow>
                 if k < - int (length SHARED) \<or> int (length SHARED) \<le> k then Some IndexError
                 else None)
          else None
      | _ \<Rightarrow> None)"

section \<open>The ranking, as the specification words it\<close>

text \<open>
  \<open>rank_entry\<close> reads the category and the magnitude of a row from its cells at
  the positions of the two columns, an empty magnitude counting as \<open>0.0\<close>.
  \<open>category_total\<close> sums the magnitudes of one category in stream order, from
  \<open>0.0\<close>; \<open>first_pos\<close> is the position of the first row of a category.
  \<open>stable_descending\<close> is the stable sort over descending keys, and
  \<open>float_rank\<close> places the floats other than NaN in the order of \<open><\<close>.
\<close>

definition rank_entry :: "python \<Rightarrow> nat \<Rightarrow> nat \<Rightarrow> row \<Rightarrow> (pyval \<times> pyfloat) option" where
  "rank_entry P i_n i_h r =
     (if i_n < length r \<and> i_h < length r then
        (case float_or_zero P (r ! i_h) of None \<Rightarrow> None | Some h \<Rightarrow> Some (r ! i_n, h))
      else None)"

definition total_step :: "python \<Rightarrow> pyval \<Rightarrow> pyfloat \<Rightarrow> pyval \<times> pyfloat \<Rightarrow> pyfloat" where
  "total_step P n s en = (case en of (m, h) \<Rightarrow> if m = n then fadd P s h else s)"

definition category_total :: "python \<Rightarrow> pyval \<Rightarrow> (pyval \<times> pyfloat) list \<Rightarrow> pyfloat" where
  "category_total P n es = foldl (total_step P n) (Fin 0) es"

definition first_pos :: "pyval \<Rightarrow> (pyval \<times> pyfloat) list \<Rightarrow> nat" where
  "first_pos n es = length (takeWhile (\<lambda>en. fst en \<noteq> n) es)"

definition float_rank :: "pyfloat \<Rightarrow> int \<times> rat" where
  "float_rank x = (case x of Fin r \<Rightarrow> (0, r) | PInf \<Rightarrow> (1, 0) | NInf \<Rightarrow> (- 1, 0) | NaN \<Rightarrow> (2, 0))"

definition stable_descending :: "('a \<Rightarrow> 'k::linorder) \<Rightarrow> 'a list \<Rightarrow> 'a list" where
  "stable_descending f xs = rev (sort_key f (rev xs))"

section \<open>A concrete Python: decimal literals and binary64 rounding\<close>

text \<open>
  \<open>py64\<close> instantiates the built-ins for the concrete runs below: \<open>int\<close> on an
  optional sign and digits; \<open>float\<close> on an optional sign followed by digits with
  an optional fraction, or by \<open>nan\<close>, \<open>inf\<close> or \<open>infinity\<close> in either case of
  letters (surrounding blanks and underscores, and the exponents of \<open>float\<close>,
  which Python also reads, are left out); rounding to the nearest binary64 value, ties to even, with
  subnormals and overflow to an infinity. \<open>exact_python\<close> is the same with exact
  arithmetic.
\<close>

function bit_length :: "int \<Rightarrow> int" where
  "bit_length n = (if n \<le> 0 then 0 else 1 + bit_length (n div 2))"
  by pat_completeness auto
termination
  by (relation "measure nat") auto

definition pow2 :: "int \<Rightarrow> rat" where
  "pow2 e = (if 0 \<le> e then 2 ^ nat e else 1 / 2 ^ nat (- e))"

definition exponent :: "rat \<Rightarrow> int" where
  "exponent x =
     (if 1 \<le> \<bar>x\<bar> then bit_length \<lfloor>\<bar>x\<bar>\<rfloor> - 1
      else - bit_length (\<lceil>1 / \<bar>x\<bar>\<rceil> - 1))"

definition round_half_even :: "rat \<Rightarrow> int" where
  "round_half_even x =
     (let f = \<lfloor>x\<rfloor>; d = x - of_int f
      in if d < 1 / 2 then f else if 1 / 2 < d then f + 1 else if even f then f else f + 1)"

definition nearest64 :: "rat \<Rightarrow> rat" where
  "nearest64 x =
     (let u = pow2 (max (exponent x) (- 1022) - 52) in of_int (round_half_even (x / u)) * u)"

definition round64 :: "rat \<Rightarrow> pyfloat" where
  "round64 x =
     (if x = 0 then Fin 0
      else let r = nearest64 x
           in if r = 0 then Fin 0
              else if 1024 \<le> exponent r then (if 0 < r then PInf else NInf)
              else Fin r)"

definition digit :: "char \<Rightarrow> nat option" where
  "digit = map_of
     [(CHR ''0'', 0), (CHR ''1'', 1), (CHR ''2'', 2), (CHR ''3'', 3), (CHR ''4'', 4),
      (CHR ''5'', 5), (CHR ''6'', 6), (CHR ''7'', 7), (CHR ''8'', 8), (CHR ''9'', 9)]"

fun digits :: "nat \<Rightarrow> string \<Rightarrow> nat option" where
  "digits n [] = Some n"
| "digits n (c # cs) = (case digit c of None \<Rightarrow> None | Some d \<Rightarrow> digits (10 * n + d) cs)"

definition unsigned_int :: "string \<Rightarrow> nat option" where
  "unsigned_int s = (if s = [] then None else digits 0 s)"

definition signed :: "(string \<Rightarrow> 'a option) \<Rightarrow> ('a \<Rightarrow> 'a) \<Rightarrow> string \<Rightarrow> 'a option" where
  "signed f neg s =
     (case s of
        [] \<Rightarrow> None
      | c # cs \<Rightarrow> if c = CHR ''-'' then map_option neg (f cs)
                 else if c = CHR ''+'' then f cs else f s)"

definition dec_int :: "string \<Rightarrow> int option" where
  "dec_int = signed (\<lambda>s. map_option int (unsigned_int s)) uminus"

definition unsigned_dec :: "string \<Rightarrow> rat option" where
  "unsigned_dec s =
     (let ip = takeWhile (\<lambda>c. c \<noteq> CHR ''.'') s; rest = dropWhile (\<lambda>c. c \<noteq> CHR ''.'') s;
          fp = (case rest of [] \<Rightarrow> [] | _ # r \<Rightarrow> r)
      in if ip = [] \<and> fp = [] then None
         else (case (digits 0 ip, digits 0 fp) of
                 (Some a, Some b) \<Rightarrow> Some (of_nat a + of_nat b / 10 ^ length fp)
               | _ \<Rightarrow> None))"

definition lower :: "char \<Rightarrow> char" where
  "lower c =
     (case map_of (zip ''AFINTY'' ''afinty'') c of None \<Rightarrow> c | Some d \<Rightarrow> d)"

definition special :: "string \<Rightarrow> pyfloat option" where
  "special s =
     (let t = map lower s
      in if t = ''nan'' then Some NaN
         else if t = ''inf'' \<or> t = ''infinity'' then Some PInf
         else None)"

definition unsigned_float :: "string \<Rightarrow> pyfloat option" where
  "unsigned_float s =
     (case special s of Some x \<Rightarrow> Some x | None \<Rightarrow> map_option round64 (unsigned_dec s))"

definition dec_float :: "string \<Rightarrow> pyfloat option" where
  "dec_float = signed unsigned_float fneg"

definition py64 :: python where
  "py64 = \<lparr>int_of_str = dec_int, float_of_str = dec_float, rnd = round64\<rparr>"

definition exact_python :: python where
  "exact_python = \<lparr>int_of_str = dec_int, float_of_str = dec_float, rnd = Fin\<rparr>"

section \<open>Concrete inputs\<close>

definition text_cell :: "string \<Rightarrow> cell" where
  "text_cell s = \<lparr>ctype = None, cvalue = Some (Some s)\<rparr>"

definition shared_cell :: "string \<Rightarrow> cell" where
  "shared_cell s = \<lparr>ctype = Some ''s'', cvalue = Some (Some s)\<rparr>"

definition sheet1 :: "xrow list \<Rightarrow> archive" where
  "sheet1 rs = [''xl/worksheets/sheet1.xml'' \<mapsto> rs]"

text \<open>The four columns \<open>monthly_weighted_avg\<close> looks up by name.\<close>

definition required :: "string list" where
  "required = [''bet_year'', ''bet_month'', ''count_of_bets'', ''avg_leg_count_inclusiveofstraightbets'']"

definition metric_column :: string where
  "metric_column = ''avg_leg_count_inclusiveofstraightbets''"

definition month_header :: "string list" where
  "month_header = [''bet_year'', ''bet_month'', ''count_of_bets'', ''avg_leg_count_inclusiveofstraightbets'']"

definition demo_rows :: "string list list" where
  "demo_rows = [[''2024'', ''1'', ''2'', ''10''], [''2024'', ''1'', ''1'', ''4''],
     [''2024'', ''2'', ''3'', ''''], [''2024'', ''3'', ''0'', ''7'']]"

definition demo_zf :: archive where
  "demo_zf = sheet1 (map (map text_cell) (month_header # demo_rows))"

definition demo_entries :: "(period \<times> pyfloat \<times> pyfloat) list" where
  "demo_entries = [((2024, 1), Fin 2, Fin 10), ((2024, 1), Fin 1, Fin 4),
     ((2024, 2), Fin 3, Fin 0), ((2024, 3), Fin 0, Fin 7)]"

definition ragged_zf :: archive where
  "ragged_zf = sheet1 (map (map text_cell)
     [[''bet_year'', ''bet_month'', ''count_of_bets'', ''avg_leg_count_inclusiveofstraightbets''],
      [''2024'', ''1'', ''2'', ''10'', ''extra'']])"

definition header_only_zf :: archive where
  "header_only_zf = sheet1 [map text_cell [''name'', ''total_bet_handle'']]"

definition no_year_zf :: archive where
  "no_year_zf = sheet1 (map (map text_cell)
     [[''name'', ''total_bet_handle''], [''A'', ''5'']])"

definition empty_weight_zf :: archive where
  "empty_weight_zf = sheet1 (map (map text_cell) [month_header, [''2024'', ''1'', '''', ''10'']])"

definition operator_header :: "string list" where
  "operator_header = [''name'', ''bet_year'', ''bet_month'', ''count_of_bets'',
     ''avg_leg_count_inclusiveofstraightbets'']"

definition zero_weight_zf :: archive where
  "zero_weight_zf = sheet1 (map (map text_cell) [operator_header, [''A'', ''2024'', ''1'', ''0'', ''3'']])"

definition negative_index_zf :: archive where
  "negative_index_zf = sheet1 [[shared_cell ''-1'']]"

definition corrupt_rows :: "xrow list" where
  "corrupt_rows = [[shared_cell ''1''], [text_cell ''q'', shared_cell ''2''], [text_cell ''r'']]"

definition corrupt_zf :: archive where
  "corrupt_zf = sheet1 corrupt_rows"

definition tie_header :: "string list" where
  "tie_header = [''name'', ''total_bet_handle'']"

definition tie_rows :: "string list list" where
  "tie_rows = [[''A'', ''60''], [''B'', ''100''], [''A'', ''40''], [''C'', '''']]"

definition tie_zf :: archive where
  "tie_zf = sheet1 (map (map text_cell) (tie_header # tie_rows))"

definition tie_entries :: "(pyval \<times> pyfloat) list" where
  "tie_entries = [(Some ''A'', Fin 60), (Some ''B'', Fin 100), (Some ''A'', Fin 40), (Some ''C'', Fin 0)]"

definition nan_rows :: "string list list" where
  "nan_rows = [[''A'', ''1''], [''B'', ''nan''], [''C'', ''2'']]"

definition nan_zf :: archive where
  "nan_zf = sheet1 (map (map text_cell) (tie_header # nan_rows))"

definition nan_entries :: "(pyval \<times> pyfloat) list" where
  "nan_entries = [(Some ''A'', Fin 1), (Some ''B'', NaN), (Some ''C'', Fin 2)]"

definition big_series :: "(period \<times> pyfloat) list" where
  "big_series = [((2024, 2), Fin 1), ((2024, 1), Fin 10000000000000000)]"

definition three_series :: "(period \<times> pyfloat) list" where
  "three_series = [((2024, 3), Fin 3), ((2024, 1), Fin 1), ((2024, 2), Fin 2)]"

section \<open>Dictionaries and accumulation\<close>

lemma map_of_dict_set: "map_of (dict_set d k v) = (map_of d)(k \<mapsto> v)"
  by (induction d k v rule: dict_set.induct) auto

lemma keys_dict_set:
  "map fst (dict_set d k v) = (if k \<in> fst ` set d then map fst d else map fst d @ [k])"
  by (induction d k v rule: dict_set.induct) auto

lemma distinct_dict_set: "distinct (map fst d) \<Longrightarrow> distinct (map fst (dict_set d k v))"
  by (simp add: keys_dict_set)

lemma dict_set_new: "k \<notin> fst ` set d \<Longrightarrow> dict_set d k v = d @ [(k, v)]"
  by (induction d k v rule: dict_set.induct) auto

lemma fsub_Fin: "fsub P (Fin a) (Fin b) = rnd P (a - b)"
  by (simp add: fsub_def)

lemma column_index_snoc:
  "column_index (xs @ [x]) = dict_set (column_index xs) x (length xs)"
  by (simp add: column_index_def enumerate_append_eq)

lemma map_of_column_index:
  "i < length h \<Longrightarrow> h ! i = k \<Longrightarrow> k \<notin> set (drop (Suc i) h) \<Longrightarrow>
   map_of (column_index h) k = Some i"
proof (induction h arbitrary: i rule: rev_induct)
  case Nil
  then show ?case by simp
next
  case (snoc x xs)
  show ?case
  proof (cases "i = length xs")
    case True
    with snoc.prems show ?thesis
      by (simp add: column_index_snoc map_of_dict_set)
  next
    case False
    with snoc.prems have i: "i < length xs" by simp
    with snoc.prems have k: "xs ! i = k" "k \<notin> set (drop (Suc i) xs)" "k \<noteq> x"
      by (auto simp: nth_append)
    from snoc.IH[OF i k(1,2)] k(3) show ?thesis
      by (simp add: column_index_snoc map_of_dict_set)
  qed
qed

lemma cell_at_column:
  assumes "column_of header name i" and "i < length r"
  shows "cell_at (column_index header) r name = Inr (r ! i)"
proof -
  from assms(1) have "map_of (column_index header) (Some name) = Some i"
    by (intro map_of_column_index) (simp_all add: column_of_def)
  then show ?thesis
    using assms(2) by (simp add: cell_at_def dict_get_def py_index_def)
qed

lemma row_entry_reads:
  assumes "column_of header ''bet_year'' iy" and "column_of header ''bet_month'' im"
    and "column_of header ''count_of_bets'' ic"
    and "column_of header ''avg_leg_count_inclusiveofstraightbets'' ia"
    and "month_entry P iy im ic ia r = Some e"
  shows "row_entry P (column_index header) r = Inr e"
proof -
  from assms(5) have len: "iy < length r" "im < length r" "ic < length r" "ia < length r"
    by (auto simp: month_entry_def split: if_splits)
  from assms(5) len obtain y m w a where e: "e = ((y, m), w, a)"
    and y: "int_cell P (r ! iy) = Some y" and m: "int_cell P (r ! im) = Some m"
    and w: "float_cell P (r ! ic) = Some w" and a: "float_or_zero P (r ! ia) = Some a"
    by (auto simp: month_entry_def split: option.splits)
  from y have py: "py_int P (r ! iy) = Inr y"
    by (auto simp: int_cell_def py_int_def split: option.splits)
  from m have pm: "py_int P (r ! im) = Inr m"
    by (auto simp: int_cell_def py_int_def split: option.splits)
  from w have pw: "py_float P (r ! ic) = Inr w"
    by (auto simp: float_cell_def py_float_def split: option.splits)
  from a have pa: "(if truthy (r ! ia) then py_float P (r ! ia) else Inr (Fin 0)) = Inr a"
    by (auto simp: float_or_zero_def py_float_def truthy_def split: option.splits if_splits)
  show ?thesis
    unfolding row_entry_def
    using pa by (simp add: cell_at_column[OF assms(1) len(1)] cell_at_column[OF assms(2) len(2)]
        cell_at_column[OF assms(3) len(3)] cell_at_column[OF assms(4) len(4)] py pm pw e
        split: if_splits sum.splits)
qed

lemma map_of_accumulate:
  "map_of (accumulate P stats (ym, count, avg)) =
     (map_of stats)(ym \<mapsto>
        (let d = (case map_of stats ym of None \<Rightarrow> acc0 | Some d \<Rightarrow> d)
         in \<lparr>ws = fadd P (ws d) (fmul P avg count), cnt = fadd P (cnt d) count\<rparr>))"
  by (simp add: accumulate_def map_of_dict_set Let_def)

lemma distinct_accumulate: "distinct (map fst stats) \<Longrightarrow> distinct (map fst (accumulate P stats e))"
  by (cases e) (simp add: accumulate_def distinct_dict_set Let_def)

lemma keys_accumulate: "fst ` set (accumulate P stats e) = insert (fst e) (fst ` set stats)"
proof -
  obtain ym c a where e: "e = (ym, c, a)" by (cases e)
  have "set (map fst (accumulate P stats e)) = insert ym (set (map fst stats))"
    unfolding e accumulate_def by (simp only: prod.case Let_def keys_dict_set) auto
  then show ?thesis by (simp add: e)
qed

lemma map_of_fold_accumulate:
  "map_of (foldl (accumulate P) stats es) p =
     (case map_of stats p of
        None \<Rightarrow> if p \<in> fst ` set es
                then Some \<lparr>ws = fold (ws_step P p) es (Fin 0), cnt = fold (wt_step P p) es (Fin 0)\<rparr>
                else None
      | Some d \<Rightarrow> Some \<lparr>ws = fold (ws_step P p) es (ws d), cnt = fold (wt_step P p) es (cnt d)\<rparr>)"
proof (induction es arbitrary: stats)
  case Nil
  show ?case by (simp split: option.split)
next
  case (Cons e es)
  obtain ym c a where e: "e = (ym, c, a)" by (cases e)
  show ?case
    unfolding foldl_Cons Cons.IH e map_of_accumulate
    by (auto simp: ws_step_def wt_step_def acc0_def Let_def split: option.split)
qed

lemma mwa_loop_ok:
  assumes "column_of header ''bet_year'' iy" and "column_of header ''bet_month'' im"
    and "column_of header ''count_of_bets'' ic"
    and "column_of header ''avg_leg_count_inclusiveofstraightbets'' ia"
  shows "map (month_entry P iy im ic ia) rows = map Some es \<Longrightarrow>
   mwa_loop P (column_index header) stats (map Inr rows) = Inr (foldl (accumulate P) stats es)"
proof (induction rows arbitrary: stats es)
  case Nil
  then show ?case by simp
next
  case (Cons r rows)
  then obtain e es' where es: "es = e # es'" by (cases es) auto
  with Cons.prems have r: "month_entry P iy im ic ia r = Some e"
    and rest: "map (month_entry P iy im ic ia) rows = map Some es'"
    by auto
  have "row_entry P (column_index header) r = Inr e"
    using assms r by (rule row_entry_reads)
  then show ?case using Cons.IH[OF rest] by (simp add: es)
qed

lemma keys_fold_accumulate:
  "fst ` set (foldl (accumulate P) stats es) = fst ` set es \<union> fst ` set stats"
  by (induction es arbitrary: stats) (auto simp: keys_accumulate)

lemma distinct_fold_accumulate:
  "distinct (map fst stats) \<Longrightarrow> distinct (map fst (foldl (accumulate P) stats es))"
  by (induction es arbitrary: stats) (auto simp: distinct_accumulate)

lemma floor_rat_numeral: "\<lfloor>numeral a / numeral b :: rat\<rfloor> = numeral a div numeral b"
  by (metis floor_divide_of_int_eq of_int_numeral)

lemma ceiling_rat_numeral: "\<lceil>numeral a / numeral b :: rat\<rceil> = - (- numeral a div numeral b)"
  by (metis ceiling_def divide_minus_left floor_divide_of_int_eq of_int_neg_numeral of_int_numeral)

lemmas round64_eval = round64_def nearest64_def exponent_def pow2_def round_half_even_def Let_def
  floor_rat_numeral ceiling_rat_numeral

lemmas py64_eval = py64_def dec_int_def dec_float_def signed_def unsigned_int_def
  unsigned_dec_def unsigned_float_def special_def lower_def digit_def py_int_def py_float_def
  truthy_def

lemmas sheet_eval = iter_rows_def SHEETS_def dict_get_def sheet1_def text_cell_def shared_cell_def
  resolve_cell_def raw_text_def

lemmas row_eval = row_entry_def column_index_def cell_at_def dict_get_def py_index_def

lemmas cells_eval = month_entry_def rank_entry_def int_cell_def float_cell_def float_or_zero_def

section \<open>Claims\<close>

text \<open>
  C1. Let the reader yield a header and data rows, let the four columns stand at
  the positions \<open>iy\<close>, \<open>im\<close>, \<open>ic\<close> and \<open>ia\<close> of the header, and let every
  data row hold there two integers, a number, and a number or an empty cell. Then
  \<open>monthly_weighted_avg\<close> returns a mapping with exactly one entry per period of
  the rows, and the value of a period is \<open>weighted_sum / weight_total\<close> (a float
  division) of the cells so read when the weight total is not zero, and \<open>0.0\<close>
  when it is zero; an empty metric cell enters \<open>weighted_sum\<close> as \<open>0.0\<close>.
\<close>

theorem monthly_weighted_avg_value:
  assumes iter: "iter_rows P SHARED zf sheet = Inr header # map Inr rows"
    and cols: "column_of header ''bet_year'' iy" "column_of header ''bet_month'' im"
      "column_of header ''count_of_bets'' ic"
      "column_of header ''avg_leg_count_inclusiveofstraightbets'' ia"
    and ent: "map (month_entry P iy im ic ia) rows = map Some es"
  shows "\<exists>res. monthly_weighted_avg P SHARED zf sheet = Inr res
           \<and> distinct (map fst res) \<and> fst ` set res = fst ` set es
           \<and> (\<forall>p \<in> fst ` set es. \<exists>v. map_of res p = Some v
                \<and> (if weight_total P p es = Fin 0 then v = Fin 0
                    else fdiv P (weighted_sum P p es) (weight_total P p es) = Inr v))"
proof -
  let ?stats = "foldl (accumulate P) [] es"
  let ?res = "map (\<lambda>(ym, d). (ym, finalize P d)) ?stats"
  have "mwa_loop P (column_index header) [] (map Inr rows) = Inr ?stats"
    using cols ent by (rule mwa_loop_ok)
  then have run: "monthly_weighted_avg P SHARED zf sheet = Inr ?res"
    by (simp add: monthly_weighted_avg_def iter)
  have fst_res: "map fst ?res = map fst ?stats"
    by (simp add: case_prod_unfold comp_def)
  have d: "distinct (map fst ?res)"
    unfolding fst_res by (rule distinct_fold_accumulate) simp
  have k: "fst ` set ?res = fst ` set es"
    using keys_fold_accumulate[of P "[]" es] fst_res
    by (metis (no_types, lifting) empty_set image_empty list.set_map sup_bot.right_neutral)
  have v: "\<exists>v. map_of ?res p = Some v
                \<and> (if weight_total P p es = Fin 0 then v = Fin 0
                    else fdiv P (weighted_sum P p es) (weight_total P p es) = Inr v)"
    if "p \<in> fst ` set es" for p
    using that
    by (simp add: map_of_map map_of_fold_accumulate finalize_def fdiv_def
        weighted_sum_def weight_total_def)
  show ?thesis using run d k v by blast
qed

lemma demo_parse:
  "dec_float ''10'' = Some (Fin 10)" "dec_float ''2'' = Some (Fin 2)"
  "dec_float ''4'' = Some (Fin 4)" "dec_float ''1'' = Some (Fin 1)"
  "dec_float ''3'' = Some (Fin 3)" "dec_float ''0'' = Some (Fin 0)"
  "dec_float ''7'' = Some (Fin 7)"
  "dec_int ''2024'' = Some 2024" "dec_int ''1'' = Some 1" "dec_int ''2'' = Some 2"
  "dec_int ''3'' = Some 3"
  by (simp_all add: py64_eval round64_eval)

lemma demo_iter:
  "iter_rows py64 [] demo_zf ''All'' = Inr (map Some month_header) # map Inr (map (map Some) demo_rows)"
  by (simp add: demo_zf_def demo_rows_def month_header_def sheet_eval)

lemma demo_columns:
  "column_of (map Some month_header) ''bet_year'' 0"
  "column_of (map Some month_header) ''bet_month'' 1"
  "column_of (map Some month_header) ''count_of_bets'' 2"
  "column_of (map Some month_header) ''avg_leg_count_inclusiveofstraightbets'' 3"
  by (simp_all add: column_of_def month_header_def)

lemma demo_cells:
  "map (month_entry py64 0 1 2 3) (map (map Some) demo_rows) = map Some demo_entries"
  by (simp add: demo_rows_def demo_entries_def cells_eval py64_def demo_parse)

lemma demo_sums:
  "weight_total py64 (2024, 1) demo_entries = Fin 3"
  "weighted_sum py64 (2024, 1) demo_entries = Fin 24"
  "fdiv py64 (Fin 24) (Fin 3) = Inr (Fin 8)"
  "weight_total py64 (2024, 2) demo_entries = Fin 3"
  "weighted_sum py64 (2024, 2) demo_entries = Fin 0"
  "fdiv py64 (Fin 0) (Fin 3) = Inr (Fin 0)"
  "weight_total py64 (2024, 3) demo_entries = Fin 0"
  by (simp_all add: weight_total_def weighted_sum_def ws_step_def wt_step_def demo_entries_def
      fdiv_def py64_def round64_eval)

theorem monthly_weighted_avg_value_witness:
  "\<exists>res. monthly_weighted_avg py64 [] demo_zf ''All'' = Inr res
     \<and> map_of res (2024, 1) = Some (Fin 8) \<and> map_of res (2024, 2) = Some (Fin 0)
     \<and> map_of res (2024, 3) = Some (Fin 0)"
proof -
  from monthly_weighted_avg_value [OF demo_iter demo_columns demo_cells]
  obtain res where run: "monthly_weighted_avg py64 [] demo_zf ''All'' = Inr res"
    and v: "\<forall>p \<in> fst ` set demo_entries. \<exists>v. map_of res p = Some v
                \<and> (if weight_total py64 p demo_entries = Fin 0 then v = Fin 0
                    else fdiv py64 (weighted_sum py64 p demo_entries)
                           (weight_total py64 p demo_entries) = Inr v)"
    by blast
  have "(2024, 1) \<in> fst ` set demo_entries" "(2024, 2) \<in> fst ` set demo_entries"
    "(2024, 3) \<in> fst ` set demo_entries"
    by (simp_all add: demo_entries_def)
  with v have "map_of res (2024, 1) = Some (Fin 8)" "map_of res (2024, 2) = Some (Fin 0)"
    "map_of res (2024, 3) = Some (Fin 0)"
    by (auto simp: demo_sums)
  with run show ?thesis by blast
qed

lemma top_loop_filter:
  "top_loop P idx header totals rows =
   top_loop P idx header totals (filter (\<lambda>it. it \<noteq> Inr header) rows)"
proof (induction rows arbitrary: totals)
  case Nil
  show ?case by simp
next
  case (Cons it rows)
  show ?case
  proof (cases it)
    case (Inl e)
    then show ?thesis by simp
  next
    case (Inr r)
    show ?thesis
    proof (cases "r = header")
      case True
      with Inr Cons.IH show ?thesis by simp
    next
      case False
      with Inr Cons.IH show ?thesis
        by (simp split: sum.split)
    qed
  qed
qed

text \<open>
  C10. \<open>top_operators\<close> computes its totals from the row stream with every row
  equal to the header removed: any row that repeats the header's values, wherever
  it stands, adds nothing to a total (and none of its cells is parsed).
\<close>

theorem top_operators_skips_header_rows:
  "top_operators P SHARED zf header =
     (case top_loop P (column_index header) header []
             (filter (\<lambda>it. it \<noteq> Inr header) (iter_rows P SHARED zf ''All'')) of
        Inl e \<Rightarrow> Inl e
      | Inr totals \<Rightarrow> Inr (map fst (take 10 (sorted_reverse flt snd totals))))"
  unfolding top_operators_def
  by (subst top_loop_filter) (rule refl)

lemma length_resolve_row: "resolve_row P SHARED r = Inr vs \<Longrightarrow> length vs = length r"
  by (induction r arbitrary: vs) (auto split: sum.splits)

lemma yield_rows_nth:
  "i < length (yield_rows P SHARED rs) \<Longrightarrow> yield_rows P SHARED rs ! i = Inr vs \<Longrightarrow>
   i < length rs \<and> resolve_row P SHARED (rs ! i) = Inr vs"
proof (induction rs arbitrary: i)
  case Nil
  then show ?case by simp
next
  case (Cons r rs)
  show ?case
  proof (cases "resolve_row P SHARED r")
    case (Inl e)
    with Cons.prems show ?thesis by simp
  next
    case (Inr ws)
    show ?thesis
    proof (cases i)
      case 0
      with Inr Cons.prems show ?thesis by simp
    next
      case (Suc k)
      with Inr Cons.prems Cons.IH[of k] show ?thesis by simp
    qed
  qed
qed

lemma resolve_cell_plain: "ctype c \<noteq> Some ''s'' \<Longrightarrow> resolve_cell P SHARED c = Inr (raw_text c)"
  by (simp add: resolve_cell_def)

lemma resolve_row_plain:
  "\<forall>c \<in> set r. ctype c \<noteq> Some ''s'' \<Longrightarrow> resolve_row P SHARED r = Inr (map raw_text r)"
  by (induction r) (simp_all add: resolve_cell_plain)

lemma yield_rows_plain:
  "\<forall>r \<in> set rs. \<forall>c \<in> set r. ctype c \<noteq> Some ''s'' \<Longrightarrow>
   yield_rows P SHARED rs = map (\<lambda>r. Inr (map raw_text r)) rs"
  by (induction rs) (simp_all add: resolve_row_plain)

lemma iter_rows_part:
  "map_of SHEETS sheet = Some part \<Longrightarrow> zf (''xl/'' @ part) = Some rs \<Longrightarrow>
   iter_rows P SHARED zf sheet = yield_rows P SHARED rs"
  by (simp add: iter_rows_def dict_get_def)

text \<open>
  C8, as amended. The reader compares no lengths. A row it yields has as many values
  as its \<open>row\<close> element has cells, whatever the length of the header row, and a
  sheet none of whose cells is a shared-string reference is yielded whole, without
  an error, whatever the lengths of its rows.
\<close>

theorem iter_rows_lengths:
  assumes "map_of SHEETS sheet = Some part" and "zf (''xl/'' @ part) = Some rs"
  shows "(\<forall>i vs. i < length (iter_rows P SHARED zf sheet) \<and> iter_rows P SHARED zf sheet ! i = Inr vs
            \<longrightarrow> i < length rs \<and> length vs = length (rs ! i))
       \<and> ((\<forall>r \<in> set rs. \<forall>c \<in> set r. ctype c \<noteq> Some ''s'')
            \<longrightarrow> iter_rows P SHARED zf sheet = map (\<lambda>r. Inr (map raw_text r)) rs)"
proof -
  have "iter_rows P SHARED zf sheet = yield_rows P SHARED rs"
    using assms by (rule iter_rows_part)
  then show ?thesis
    using yield_rows_nth length_resolve_row yield_rows_plain by metis
qed

lemma map_of_fold_index:
  "map_of (fold (\<lambda>(i, h) d. dict_set d h i) xs d) k = None
     \<longleftrightarrow> map_of d k = None \<and> k \<notin> snd ` set xs"
  by (induction xs arbitrary: d) (auto simp: map_of_dict_set split: if_splits)

lemma column_index_missing:
  "k \<notin> set header \<Longrightarrow> map_of (column_index header) k = None"
proof -
  have "snd ` set (enumerate 0 header) = set header"
    by (metis list.set_map map_snd_enumerate)
  moreover assume "k \<notin> set header"
  ultimately show ?thesis by (simp add: column_index_def map_of_fold_index)
qed

lemma cell_at_missing: "Some c \<notin> set header \<Longrightarrow> cell_at (column_index header) r c = Inl KeyError"
  by (simp add: cell_at_def dict_get_def column_index_missing)

lemma row_entry_missing:
  assumes "c \<in> set required" and "Some c \<notin> set header"
  shows "\<exists>e. row_entry P (column_index header) r = Inl e"
  using assms cell_at_missing[of c header r]
  by (auto simp: required_def row_entry_def split: sum.splits)

lemma row_entry_missing_year:
  "Some ''bet_year'' \<notin> set header \<Longrightarrow> row_entry P (column_index header) r = Inl KeyError"
  by (simp add: row_entry_def cell_at_missing)

text \<open>
  C7, as amended. When the header lacks one of the four columns, the columns are
  looked up while the first data row is processed, not before: with no data row
  \<open>monthly_weighted_avg\<close> returns the empty mapping without an error; with at
  least one it raises and returns no mapping, and the exception is \<open>KeyError\<close>
  when the first item is a row and the missing column is \<open>bet_year\<close>, the first
  one looked up.
\<close>

theorem monthly_weighted_avg_missing_column:
  assumes iter: "iter_rows P SHARED zf sheet = Inr header # rows"
    and miss: "c \<in> set required" "Some c \<notin> set header"
  shows "(rows = [] \<longrightarrow> monthly_weighted_avg P SHARED zf sheet = Inr [])
       \<and> (rows \<noteq> [] \<longrightarrow> (\<exists>e. monthly_weighted_avg P SHARED zf sheet = Inl e))
       \<and> (\<forall>r rest. rows = Inr r # rest \<and> Some ''bet_year'' \<notin> set header
            \<longrightarrow> monthly_weighted_avg P SHARED zf sheet = Inl KeyError)"
proof (intro conjI impI allI)
  assume "rows = []"
  then show "monthly_weighted_avg P SHARED zf sheet = Inr []"
    by (simp add: monthly_weighted_avg_def iter)
next
  assume "rows \<noteq> []"
  then obtain it rest where rows: "rows = it # rest" by (cases rows) auto
  show "\<exists>e. monthly_weighted_avg P SHARED zf sheet = Inl e"
  proof (cases it)
    case (Inl e)
    then show ?thesis by (simp add: monthly_weighted_avg_def iter rows)
  next
    case (Inr r)
    from row_entry_missing[OF miss] obtain e where "row_entry P (column_index header) r = Inl e"
      by blast
    then show ?thesis by (simp add: monthly_weighted_avg_def iter rows Inr)
  qed
next
  fix r rest
  assume "rows = Inr r # rest \<and> Some ''bet_year'' \<notin> set header"
  then show "monthly_weighted_avg P SHARED zf sheet = Inl KeyError"
    by (simp add: monthly_weighted_avg_def iter row_entry_missing_year)
qed

text \<open>
  C8 fails as stated: a data row of five cells under a header of four is yielded as
  it is, and the aggregation accepts it.
\<close>

theorem ragged_rows_accepted:
  "iter_rows py64 [] ragged_zf ''All'' =
     [Inr (map Some [''bet_year'', ''bet_month'', ''count_of_bets'', ''avg_leg_count_inclusiveofstraightbets'']),
      Inr (map Some [''2024'', ''1'', ''2'', ''10'', ''extra''])]
   \<and> monthly_weighted_avg py64 [] ragged_zf ''All'' = Inr [((2024, 1), Fin 10)]"
  by (simp add: monthly_weighted_avg_def ragged_zf_def sheet_eval row_eval accumulate_def acc0_def
      finalize_def py64_eval round64_eval)

theorem iter_rows_lengths_witness:
  "iter_rows py64 [] ragged_zf ''All'' =
     map (\<lambda>r. Inr (map raw_text r)) (map (map text_cell)
     [[''bet_year'', ''bet_month'', ''count_of_bets'', ''avg_leg_count_inclusiveofstraightbets''],
      [''2024'', ''1'', ''2'', ''10'', ''extra'']])"
proof -
  have a: "map_of SHEETS ''All'' = Some ''worksheets/sheet1.xml''"
    by (simp add: SHEETS_def)
  have b: "ragged_zf (''xl/'' @ ''worksheets/sheet1.xml'') = Some (map (map text_cell)
     [[''bet_year'', ''bet_month'', ''count_of_bets'', ''avg_leg_count_inclusiveofstraightbets''],
      [''2024'', ''1'', ''2'', ''10'', ''extra'']])"
    by (simp add: ragged_zf_def sheet1_def)
  show ?thesis
    using iter_rows_lengths [of "''All''" "''worksheets/sheet1.xml''" ragged_zf _ py64 "[]", OF a b]
    by (simp add: text_cell_def)
qed

text \<open>
  C7 fails as stated: a header without the required columns and no data row gives
  the empty mapping, not an error.
\<close>

theorem no_error_without_rows:
  "monthly_weighted_avg py64 [] header_only_zf ''All'' = Inr []"
  by (simp add: monthly_weighted_avg_def header_only_zf_def sheet_eval)

theorem monthly_weighted_avg_missing_column_witness:
  "monthly_weighted_avg py64 [] no_year_zf ''All'' = Inl KeyError"
proof -
  have it: "iter_rows py64 [] no_year_zf ''All'' =
      Inr (map Some [''name'', ''total_bet_handle'']) # [Inr (map Some [''A'', ''5''])]"
    by (simp add: no_year_zf_def sheet_eval)
  have c: "''bet_year'' \<in> set required" by (simp add: required_def)
  have m: "Some ''bet_year'' \<notin> set (map Some [''name'', ''total_bet_handle''])" by simp
  show ?thesis
    using monthly_weighted_avg_missing_column [OF it c m] m by blast
qed

lemma mwa_loop_row_error:
  "row_entry P idx r = Inl e \<Longrightarrow> mwa_loop P idx stats (Inr r # rows) = Inl e"
  by simp

text \<open>
  C6, as amended. For a data row whose year and month cells parse: an empty metric
  cell gives the metric \<open>0.0\<close> and no error; a weight cell on which
  \<open>float\<close> fails makes the row, and with it the aggregation loop, raise that
  error, which is \<open>ValueError\<close> for a string that \<open>float\<close> rejects.
\<close>

theorem row_entry_empty_cells:
  assumes y: "cell_at idx r ''bet_year'' = Inr yc" "py_int P yc = Inr y"
    and m: "cell_at idx r ''bet_month'' = Inr mc" "py_int P mc = Inr m"
    and c: "cell_at idx r ''count_of_bets'' = Inr cc"
  shows "(\<forall>count. py_float P cc = Inr count \<and> cell_at idx r metric_column = Inr (Some [])
            \<longrightarrow> row_entry P idx r = Inr ((y, m), count, Fin 0))
       \<and> (\<forall>e. py_float P cc = Inl e
            \<longrightarrow> row_entry P idx r = Inl e
              \<and> (\<forall>stats rows. mwa_loop P idx stats (Inr r # rows) = Inl e))
       \<and> (\<forall>s. cc = Some s \<and> float_of_str P s = None \<longrightarrow> row_entry P idx r = Inl ValueError)"
proof (intro conjI allI impI)
  fix count
  assume "py_float P cc = Inr count \<and> cell_at idx r metric_column = Inr (Some [])"
  then show "row_entry P idx r = Inr ((y, m), count, Fin 0)"
    using y m c by (simp add: row_entry_def metric_column_def truthy_def)
next
  fix e
  assume e: "py_float P cc = Inl e"
  then show re: "row_entry P idx r = Inl e"
    using y m c by (simp add: row_entry_def)
  fix stats rows
  show "mwa_loop P idx stats (Inr r # rows) = Inl e"
    using re by (rule mwa_loop_row_error)
next
  fix s
  assume "cc = Some s \<and> float_of_str P s = None"
  then have "py_float P cc = Inl ValueError"
    by (simp add: py_float_def)
  then show "row_entry P idx r = Inl ValueError"
    using y m c by (simp add: row_entry_def)
qed

text \<open>
  C6 fails as stated: an empty weight cell does not count as \<open>0.0\<close>, the
  aggregation raises \<open>ValueError\<close>.
\<close>

theorem empty_weight_raises:
  "monthly_weighted_avg py64 [] empty_weight_zf ''All'' = Inl ValueError"
  by (simp add: monthly_weighted_avg_def empty_weight_zf_def month_header_def sheet_eval row_eval
      py64_eval round64_eval)

theorem row_entry_empty_cells_witness:
  "row_entry py64 (column_index (map Some month_header)) (map Some [''2024'', ''1'', '''', ''10''])
     = Inl ValueError
   \<and> row_entry py64 (column_index (map Some month_header)) (map Some [''2024'', ''1'', ''2'', ''''])
     = Inr ((2024, 1), Fin 2, Fin 0)"
proof -
  let ?idx = "column_index (map Some month_header)"
  let ?r = "map Some [''2024'', ''1'', '''', ''10'']"
  let ?r' = "map Some [''2024'', ''1'', ''2'', '''']"
  have y: "cell_at ?idx ?r ''bet_year'' = Inr (Some ''2024'')" "py_int py64 (Some ''2024'') = Inr 2024"
    and m: "cell_at ?idx ?r ''bet_month'' = Inr (Some ''1'')" "py_int py64 (Some ''1'') = Inr 1"
    and c: "cell_at ?idx ?r ''count_of_bets'' = Inr (Some '''')"
    and f: "float_of_str py64 '''' = None"
    by (simp_all add: month_header_def row_eval py64_eval)
  have y': "cell_at ?idx ?r' ''bet_year'' = Inr (Some ''2024'')"
    and m': "cell_at ?idx ?r' ''bet_month'' = Inr (Some ''1'')"
    and c': "cell_at ?idx ?r' ''count_of_bets'' = Inr (Some ''2'')"
    and a': "cell_at ?idx ?r' metric_column = Inr (Some [])"
    and f': "py_float py64 (Some ''2'') = Inr (Fin 2)"
    by (simp_all add: month_header_def metric_column_def row_eval py64_eval round64_eval)
  show ?thesis
    using row_entry_empty_cells [OF y m c] row_entry_empty_cells [OF y' y(2) m' m(2) c'] f a' f'
    by blast
qed

text \<open>
  C3. \<open>operator_trailing\<close> divides \<open>ws\<close> by \<open>cnt\<close> without the guard of
  \<open>monthly_weighted_avg\<close>: on a period of an operator whose weights sum to zero it
  raises \<open>ZeroDivisionError\<close>, where \<open>monthly_weighted_avg\<close> gives \<open>0.0\<close>
  on the same rows.
\<close>

theorem operator_trailing_zero_weight:
  "operator_trailing py64 [] zero_weight_zf (map Some operator_header) [Some ''A'']
     = Inl ZeroDivisionError
   \<and> monthly_weighted_avg py64 [] zero_weight_zf ''All'' = Inr [((2024, 1), Fin 0)]"
  by (simp add: operator_trailing_def monthly_weighted_avg_def zero_weight_zf_def
      operator_header_def sheet_eval row_eval accumulate_def acc0_def finalize_def
      fdiv_def py64_eval round64_eval)

lemma resolve_row_nth:
  "resolve_row P SHARED r = Inr vs \<Longrightarrow> j < length vs \<Longrightarrow>
   resolve_cell P SHARED (r ! j) = Inr (vs ! j)"
proof (induction r arbitrary: vs j)
  case Nil
  then show ?case by simp
next
  case (Cons c cs)
  then show ?case
    by (cases j) (auto split: sum.splits)
qed

lemma resolve_cell_flagged:
  assumes "ctype c = Some ''s''" and "raw_text c = Some s" and "s \<noteq> []"
  shows "resolve_cell P SHARED c =
     (case int_of_str P s of
        None \<Rightarrow> Inl ValueError
      | Some i \<Rightarrow> (case py_index SHARED i of Inl e \<Rightarrow> Inl e | Inr t \<Rightarrow> Inr (Some t)))"
  using assms by (simp add: resolve_cell_def truthy_def py_int_def split: option.split)

lemma resolve_cell_error:
  "cell_error P SHARED c = Some e \<Longrightarrow> resolve_cell P SHARED c = Inl e"
  by (auto simp: cell_error_def resolve_cell_flagged py_index_def
      split: option.splits if_splits)

lemma resolve_cell_ok:
  assumes "cell_error P SHARED c = None"
  shows "\<exists>v. resolve_cell P SHARED c = Inr v"
proof (cases "ctype c = Some ''s'' \<and> truthy (raw_text c)")
  case True
  then obtain s where s: "raw_text c = Some s" "s \<noteq> []"
    by (auto simp: truthy_def split: option.splits)
  with True assms obtain k where k: "int_of_str P s = Some k"
    and r: "- int (length SHARED) \<le> k" "k < int (length SHARED)"
    by (auto simp: cell_error_def split: option.splits if_splits)
  from r have "\<exists>t. py_index SHARED k = Inr t" by (simp add: py_index_def)
  with True s k show ?thesis by (auto simp: resolve_cell_flagged)
next
  case False
  then show ?thesis by (auto simp: resolve_cell_def)
qed

lemma resolve_row_ok:
  "\<forall>c \<in> set r. cell_error P SHARED c = None \<Longrightarrow> \<exists>vs. resolve_row P SHARED r = Inr vs"
proof (induction r)
  case Nil
  show ?case by simp
next
  case (Cons c cs)
  then obtain v vs where "resolve_cell P SHARED c = Inr v" "resolve_row P SHARED cs = Inr vs"
    using resolve_cell_ok[of P SHARED c] by auto
  then show ?case by simp
qed

lemma resolve_row_error:
  "j < length r \<Longrightarrow> \<forall>j' < j. cell_error P SHARED (r ! j') = None \<Longrightarrow>
   cell_error P SHARED (r ! j) = Some e \<Longrightarrow> resolve_row P SHARED r = Inl e"
proof (induction r arbitrary: j)
  case Nil
  then show ?case by simp
next
  case (Cons c cs)
  show ?case
  proof (cases j)
    case 0
    with Cons.prems show ?thesis by (simp add: resolve_cell_error)
  next
    case (Suc k)
    with Cons.prems have "cell_error P SHARED c = None" by auto
    then obtain v where v: "resolve_cell P SHARED c = Inr v"
      using resolve_cell_ok by blast
    from Suc Cons.prems have "k < length cs" "\<forall>j' < k. cell_error P SHARED (cs ! j') = None"
      "cell_error P SHARED (cs ! k) = Some e"
      by auto
    then have "resolve_row P SHARED cs = Inl e" by (rule Cons.IH)
    with v show ?thesis by simp
  qed
qed

lemma yield_rows_error:
  "i < length rs \<Longrightarrow> \<forall>i' < i. \<exists>vs. resolve_row P SHARED (rs ! i') = Inr vs \<Longrightarrow>
   resolve_row P SHARED (rs ! i) = Inl e \<Longrightarrow>
   length (yield_rows P SHARED rs) = Suc i \<and> yield_rows P SHARED rs ! i = Inl e
   \<and> (\<forall>i' < i. \<exists>vs. yield_rows P SHARED rs ! i' = Inr vs)"
proof (induction rs arbitrary: i)
  case Nil
  then show ?case by simp
next
  case (Cons r rs)
  show ?case
  proof (cases i)
    case 0
    with Cons.prems show ?thesis by simp
  next
    case (Suc k)
    with Cons.prems obtain vs where vs: "resolve_row P SHARED r = Inr vs" by auto
    from Suc Cons.prems have "k < length rs"
      "\<forall>i' < k. \<exists>vs. resolve_row P SHARED (rs ! i') = Inr vs"
      "resolve_row P SHARED (rs ! k) = Inl e"
      by auto
    then have ih: "length (yield_rows P SHARED rs) = Suc k \<and> yield_rows P SHARED rs ! k = Inl e
        \<and> (\<forall>i' < k. \<exists>vs. yield_rows P SHARED rs ! i' = Inr vs)"
      by (rule Cons.IH)
    have "\<exists>ws. (Inr vs # yield_rows P SHARED rs) ! i' = Inr ws" if "i' < Suc k" for i'
      using that ih by (cases i') auto
    with ih show ?thesis by (simp add: vs Suc)
  qed
qed

lemma yield_rows_ok:
  "\<forall>r \<in> set rs. \<exists>vs. resolve_row P SHARED r = Inr vs \<Longrightarrow>
   length (yield_rows P SHARED rs) = length rs
   \<and> (\<forall>i < length rs. \<exists>vs. yield_rows P SHARED rs ! i = Inr vs)"
proof (induction rs)
  case Nil
  show ?case by simp
next
  case (Cons r rs)
  then obtain vs where vs: "resolve_row P SHARED r = Inr vs" by auto
  from Cons have ih: "length (yield_rows P SHARED rs) = length rs
      \<and> (\<forall>i < length rs. \<exists>vs. yield_rows P SHARED rs ! i = Inr vs)"
    by simp
  have "\<exists>ws. (Inr vs # yield_rows P SHARED rs) ! i = Inr ws" if "i < Suc (length rs)" for i
    using that ih by (cases i) auto
  with ih show ?case by (simp add: vs)
qed

lemma yielded_cell:
  assumes "iter_rows P SHARED zf sheet = yield_rows P SHARED rs"
    and "i < length (iter_rows P SHARED zf sheet)"
    and "iter_rows P SHARED zf sheet ! i = Inr vs"
    and "j < length vs"
    and "c = rs ! i ! j"
  shows "resolve_cell P SHARED c = Inr (vs ! j)
       \<and> (ctype c \<noteq> Some ''s'' \<longrightarrow> vs ! j = raw_text c)
       \<and> (cvalue c = None \<longrightarrow> vs ! j = Some [])
       \<and> (\<not> truthy (raw_text c) \<longrightarrow> vs ! j = raw_text c)
       \<and> (\<forall>s. ctype c = Some ''s'' \<and> raw_text c = Some s \<and> s \<noteq> [] \<longrightarrow>
            (\<exists>k. int_of_str P s = Some k
               \<and> - int (length SHARED) \<le> k \<and> k < int (length SHARED)
               \<and> vs ! j = Some (SHARED ! nat (if k < 0 then int (length SHARED) + k else k))))"
proof -
  from assms(1,2,3) have "resolve_row P SHARED (rs ! i) = Inr vs"
    using yield_rows_nth by metis
  with assms(4,5) have rc: "resolve_cell P SHARED c = Inr (vs ! j)"
    using resolve_row_nth by metis
  have plain: "vs ! j = raw_text c" if "ctype c \<noteq> Some ''s''"
    using rc that by (simp add: resolve_cell_def)
  have absent: "vs ! j = Some []" if "cvalue c = None"
    using rc that by (simp add: resolve_cell_def raw_text_def truthy_def)
  have falsy: "vs ! j = raw_text c" if "\<not> truthy (raw_text c)"
    using rc that by (simp add: resolve_cell_def)
  have flagged: "\<exists>k. int_of_str P s = Some k
               \<and> - int (length SHARED) \<le> k \<and> k < int (length SHARED)
               \<and> vs ! j = Some (SHARED ! nat (if k < 0 then int (length SHARED) + k else k))"
    if "ctype c = Some ''s'' \<and> raw_text c = Some s \<and> s \<noteq> []" for s
  proof -
    from that have eq: "resolve_cell P SHARED c =
       (case int_of_str P s of
          None \<Rightarrow> Inl ValueError
        | Some i \<Rightarrow> (case py_index SHARED i of Inl e \<Rightarrow> Inl e | Inr t \<Rightarrow> Inr (Some t)))"
      by (simp add: resolve_cell_flagged)
    from rc eq obtain k t where k: "int_of_str P s = Some k"
      and t: "py_index SHARED k = Inr t" and v: "vs ! j = Some t"
      by (auto split: option.splits sum.splits)
    from t have "- int (length SHARED) \<le> k \<and> k < int (length SHARED)
        \<and> t = SHARED ! nat (if k < 0 then int (length SHARED) + k else k)"
      by (auto simp: py_index_def split: if_splits)
    with k v show ?thesis by blast
  qed
  show ?thesis using rc plain absent falsy flagged by blast
qed

text \<open>
  C4, as amended. Every value the reader yields is the resolution of its cell: the
  raw text as it is when the flag is not \<open>s\<close> (the empty string when there is no
  value node) or when the raw text is empty or \<open>None\<close>; for a flagged cell with a
  non-empty text, the text parses as an integer \<open>k\<close> with \<open>-N \<le> k < N\<close> and
  the value is the shared string at \<open>k\<close>, counted from the end of the table when
  \<open>k\<close> is negative. At the first cell in reading order that is flagged, not empty
  and either no integer or an integer outside \<open>-N \<le> k < N\<close>, the reader raises
  \<open>ValueError\<close>, respectively \<open>IndexError\<close>: the rows before that cell's row
  are yielded, its row and the rows after it are not. Without such a cell every row
  is yielded.
\<close>

theorem iter_rows_cell_resolution:
  assumes "map_of SHEETS sheet = Some part" and "zf (''xl/'' @ part) = Some rs"
  shows "(\<forall>i vs j c. i < length (iter_rows P SHARED zf sheet)
            \<and> iter_rows P SHARED zf sheet ! i = Inr vs \<and> j < length vs \<and> c = rs ! i ! j \<longrightarrow>
           resolve_cell P SHARED c = Inr (vs ! j)
         \<and> (ctype c \<noteq> Some ''s'' \<longrightarrow> vs ! j = raw_text c)
         \<and> (cvalue c = None \<longrightarrow> vs ! j = Some [])
         \<and> (\<not> truthy (raw_text c) \<longrightarrow> vs ! j = raw_text c)
         \<and> (\<forall>s. ctype c = Some ''s'' \<and> raw_text c = Some s \<and> s \<noteq> [] \<longrightarrow>
              (\<exists>k. int_of_str P s = Some k
                 \<and> - int (length SHARED) \<le> k \<and> k < int (length SHARED)
                 \<and> vs ! j = Some (SHARED ! nat (if k < 0 then int (length SHARED) + k else k)))))
       \<and> (\<forall>i j e. i < length rs \<and> j < length (rs ! i)
            \<and> (\<forall>i' < i. \<forall>c \<in> set (rs ! i'). cell_error P SHARED c = None)
            \<and> (\<forall>j' < j. cell_error P SHARED (rs ! i ! j') = None)
            \<and> cell_error P SHARED (rs ! i ! j) = Some e \<longrightarrow>
           length (iter_rows P SHARED zf sheet) = Suc i
         \<and> iter_rows P SHARED zf sheet ! i = Inl e
         \<and> (\<forall>i' < i. \<exists>vs. iter_rows P SHARED zf sheet ! i' = Inr vs))
       \<and> ((\<forall>r \<in> set rs. \<forall>c \<in> set r. cell_error P SHARED c = None) \<longrightarrow>
           length (iter_rows P SHARED zf sheet) = length rs
         \<and> (\<forall>i < length rs. \<exists>vs. iter_rows P SHARED zf sheet ! i = Inr vs))"
proof (intro conjI allI impI)
  have it: "iter_rows P SHARED zf sheet = yield_rows P SHARED rs"
    using assms by (rule iter_rows_part)
  {
    fix i vs j c
    assume a: "i < length (iter_rows P SHARED zf sheet)
            \<and> iter_rows P SHARED zf sheet ! i = Inr vs \<and> j < length vs \<and> c = rs ! i ! j"
    then have y: "resolve_cell P SHARED c = Inr (vs ! j)
       \<and> (ctype c \<noteq> Some ''s'' \<longrightarrow> vs ! j = raw_text c)
       \<and> (cvalue c = None \<longrightarrow> vs ! j = Some [])
       \<and> (\<not> truthy (raw_text c) \<longrightarrow> vs ! j = raw_text c)
       \<and> (\<forall>s. ctype c = Some ''s'' \<and> raw_text c = Some s \<and> s \<noteq> [] \<longrightarrow>
            (\<exists>k. int_of_str P s = Some k
               \<and> - int (length SHARED) \<le> k \<and> k < int (length SHARED)
               \<and> vs ! j = Some (SHARED ! nat (if k < 0 then int (length SHARED) + k else k))))"
      by (intro yielded_cell[OF it]) simp_all
    from y show "resolve_cell P SHARED c = Inr (vs ! j)" by blast
    { assume "ctype c \<noteq> Some ''s''" with y show "vs ! j = raw_text c" by blast }
    { assume "cvalue c = None" with y show "vs ! j = Some []" by blast }
    { assume "\<not> truthy (raw_text c)" with y show "vs ! j = raw_text c" by blast }
    { fix s assume "ctype c = Some ''s'' \<and> raw_text c = Some s \<and> s \<noteq> []"
      with y show "\<exists>k. int_of_str P s = Some k
               \<and> - int (length SHARED) \<le> k \<and> k < int (length SHARED)
               \<and> vs ! j = Some (SHARED ! nat (if k < 0 then int (length SHARED) + k else k))"
        by blast }
  }
  {
    fix i j e
    assume a: "i < length rs \<and> j < length (rs ! i)
            \<and> (\<forall>i' < i. \<forall>c \<in> set (rs ! i'). cell_error P SHARED c = None)
            \<and> (\<forall>j' < j. cell_error P SHARED (rs ! i ! j') = None)
            \<and> cell_error P SHARED (rs ! i ! j) = Some e"
    then have "resolve_row P SHARED (rs ! i) = Inl e"
      by (intro resolve_row_error[of j]) simp_all
    moreover from a have "\<forall>i' < i. \<exists>vs. resolve_row P SHARED (rs ! i') = Inr vs"
      by (simp add: resolve_row_ok)
    ultimately have r: "length (yield_rows P SHARED rs) = Suc i \<and> yield_rows P SHARED rs ! i = Inl e
        \<and> (\<forall>i' < i. \<exists>vs. yield_rows P SHARED rs ! i' = Inr vs)"
      using a by (intro yield_rows_error) simp_all
    from r show "length (iter_rows P SHARED zf sheet) = Suc i" by (simp add: it)
    from r show "iter_rows P SHARED zf sheet ! i = Inl e" by (simp add: it)
    fix i' assume "i' < i"
    with r show "\<exists>vs. iter_rows P SHARED zf sheet ! i' = Inr vs" by (simp add: it)
  }
  {
    assume "\<forall>r \<in> set rs. \<forall>c \<in> set r. cell_error P SHARED c = None"
    then have "\<forall>r \<in> set rs. \<exists>vs. resolve_row P SHARED r = Inr vs"
      by (simp add: resolve_row_ok)
    then have r: "length (yield_rows P SHARED rs) = length rs
        \<and> (\<forall>i < length rs. \<exists>vs. yield_rows P SHARED rs ! i = Inr vs)"
      by (rule yield_rows_ok)
    from r show "length (iter_rows P SHARED zf sheet) = length rs" by (simp add: it)
    fix i assume "i < length rs"
    with r show "\<exists>vs. iter_rows P SHARED zf sheet ! i = Inr vs" by (simp add: it)
  }
qed

text \<open>
  C4 fails as stated: the index \<open>-1\<close>, outside \<open>0..N-1\<close>, raises nothing and
  resolves to the last shared string.
\<close>

theorem negative_index_resolves:
  "iter_rows py64 [''a'', ''b''] negative_index_zf ''All'' = [Inr [Some ''b'']]"
  by (simp add: negative_index_zf_def sheet_eval py_index_def py64_eval truthy_def)

lemma corrupt_cells:
  "cell_error py64 [''a'', ''b''] (shared_cell ''1'') = None"
  "cell_error py64 [''a'', ''b''] (text_cell ''q'') = None"
  "cell_error py64 [''a'', ''b''] (shared_cell ''2'') = Some IndexError"
  by (simp_all add: cell_error_def shared_cell_def text_cell_def raw_text_def py64_eval)

theorem iter_rows_cell_resolution_witness:
  "length (iter_rows py64 [''a'', ''b''] corrupt_zf ''All'') = 2
   \<and> iter_rows py64 [''a'', ''b''] corrupt_zf ''All'' ! 0 = Inr [Some ''b'']
   \<and> iter_rows py64 [''a'', ''b''] corrupt_zf ''All'' ! 1 = Inl IndexError
   \<and> resolve_cell py64 [''a'', ''b''] (shared_cell ''1'') = Inr (Some ''b'')"
proof -
  let ?it = "iter_rows py64 [''a'', ''b''] corrupt_zf ''All''"
  have a: "map_of SHEETS ''All'' = Some ''worksheets/sheet1.xml''"
    by (simp add: SHEETS_def)
  have b: "corrupt_zf (''xl/'' @ ''worksheets/sheet1.xml'') = Some corrupt_rows"
    by (simp add: corrupt_zf_def sheet1_def)
  note t = iter_rows_cell_resolution [of "''All''" "''worksheets/sheet1.xml''" corrupt_zf
      corrupt_rows py64 "[''a'', ''b'']", OF a b]
  note yielded = t [THEN conjunct1, rule_format]
  note raised = t [THEN conjunct2, THEN conjunct1, rule_format]
  have bad: "1 < length corrupt_rows \<and> 1 < length (corrupt_rows ! 1)
      \<and> (\<forall>i' < 1. \<forall>c \<in> set (corrupt_rows ! i'). cell_error py64 [''a'', ''b''] c = None)
      \<and> (\<forall>j' < 1. cell_error py64 [''a'', ''b''] (corrupt_rows ! 1 ! j') = None)
      \<and> cell_error py64 [''a'', ''b''] (corrupt_rows ! 1 ! 1) = Some IndexError"
    by (simp add: corrupt_rows_def corrupt_cells)
  have e: "length ?it = Suc 1 \<and> ?it ! 1 = Inl IndexError
      \<and> (\<forall>i' < 1. \<exists>vs. ?it ! i' = Inr vs)"
    using bad by (rule raised)
  have it: "?it = [Inr [Some ''b''], Inl IndexError]"
    by (simp add: corrupt_zf_def corrupt_rows_def sheet_eval py_index_def py64_eval)
  have good: "0 < length ?it \<and> ?it ! 0 = Inr [Some ''b''] \<and> 0 < length [Some ''b'']
      \<and> shared_cell ''1'' = corrupt_rows ! 0 ! 0"
    by (simp add: it corrupt_rows_def)
  have "resolve_cell py64 [''a'', ''b''] (shared_cell ''1'') = Inr ([Some ''b''] ! 0)"
    using good by (rule yielded [THEN conjunct1])
  with e good show ?thesis by simp
qed

section \<open>Ranking\<close>

lemma flt_rank: "x \<noteq> NaN \<Longrightarrow> y \<noteq> NaN \<Longrightarrow> flt x y \<longleftrightarrow> float_rank x < float_rank y"
  by (cases x; cases y) (simp_all add: float_rank_def)

lemma fle_rank: "x \<noteq> NaN \<Longrightarrow> y \<noteq> NaN \<Longrightarrow> fle x y \<longleftrightarrow> float_rank x \<le> float_rank y"
  by (cases x; cases y) (auto simp: float_rank_def fle_def)

lemma float_rank_eq: "float_rank x = float_rank y \<longleftrightarrow> x = y"
  by (cases x; cases y) (simp_all add: float_rank_def)

lemma insert_key_rank:
  "k x \<noteq> NaN \<Longrightarrow> \<forall>y \<in> set ys. k y \<noteq> NaN \<Longrightarrow>
   insert_key flt k x ys = insort_key (float_rank \<circ> k) x ys"
  by (induction ys) (auto simp: flt_rank)

lemma py_sorted_rank:
  "\<forall>x \<in> set xs. k x \<noteq> NaN \<Longrightarrow> py_sorted flt k xs = sort_key (float_rank \<circ> k) xs"
proof (induction xs)
  case Nil
  show ?case by (simp add: py_sorted_def)
next
  case (Cons x xs)
  from Cons.prems have "\<forall>x \<in> set xs. k x \<noteq> NaN" by simp
  then have ih: "py_sorted flt k xs = sort_key (float_rank \<circ> k) xs" by (rule Cons.IH)
  have "py_sorted flt k (x # xs) = insert_key flt k x (py_sorted flt k xs)"
    by (simp add: py_sorted_def)
  also have "\<dots> = insort_key (float_rank \<circ> k) x (sort_key (float_rank \<circ> k) xs)"
    unfolding ih using Cons.prems by (intro insert_key_rank) simp_all
  finally show ?case by (simp add: comp_def)
qed

lemma sorted_reverse_rank:
  "\<forall>x \<in> set xs. k x \<noteq> NaN \<Longrightarrow>
   sorted_reverse flt k xs = stable_descending (float_rank \<circ> k) xs"
  by (simp add: sorted_reverse_def stable_descending_def py_sorted_rank)

lemma top_entry_reads:
  assumes "column_of header ''name'' i_n" and "column_of header ''total_bet_handle'' i_h"
    and "rank_entry P i_n i_h r = Some en"
  shows "top_entry P (column_index header) r = Inr en"
proof -
  from assms(3) have len: "i_n < length r" "i_h < length r"
    by (auto simp: rank_entry_def split: if_splits)
  from assms(3) len obtain h where en: "en = (r ! i_n, h)"
    and h: "float_or_zero P (r ! i_h) = Some h"
    by (auto simp: rank_entry_def split: option.splits)
  from h have "(if truthy (r ! i_h) then py_float P (r ! i_h) else Inr (Fin 0)) = Inr h"
    by (auto simp: float_or_zero_def py_float_def truthy_def split: option.splits if_splits)
  then show ?thesis
    unfolding top_entry_def
    by (simp add: cell_at_column[OF assms(1) len(1)] cell_at_column[OF assms(2) len(2)] en
        split: if_splits sum.splits)
qed

lemma top_loop_reads:
  assumes "column_of header ''name'' i_n" and "column_of header ''total_bet_handle'' i_h"
  shows "map (rank_entry P i_n i_h) (filter (\<lambda>r. r \<noteq> header) rows) = map Some es \<Longrightarrow>
   top_loop P (column_index header) header totals (map Inr rows)
     = Inr (foldl (add_total P) totals es)"
proof (induction rows arbitrary: totals es)
  case Nil
  then show ?case by simp
next
  case (Cons r rows)
  show ?case
  proof (cases "r = header")
    case True
    with Cons show ?thesis by simp
  next
    case False
    with Cons.prems obtain en es' where es: "es = en # es'"
      and r: "rank_entry P i_n i_h r = Some en"
      and rest: "map (rank_entry P i_n i_h) (filter (\<lambda>r. r \<noteq> header) rows) = map Some es'"
      by (cases es) auto
    have "top_entry P (column_index header) r = Inr en"
      using assms r by (rule top_entry_reads)
    with False Cons.IH[OF rest] show ?thesis by (simp add: es)
  qed
qed

lemma map_of_add_total:
  "map_of (add_total P totals (m, h)) =
     (map_of totals)(m \<mapsto> fadd P (case map_of totals m of None \<Rightarrow> Fin 0 | Some t \<Rightarrow> t) h)"
  by (simp add: add_total_def map_of_dict_set)

lemma map_of_foldl_add_total:
  "map_of (foldl (add_total P) totals es) n =
     (case map_of totals n of
        None \<Rightarrow> if n \<in> fst ` set es then Some (foldl (total_step P n) (Fin 0) es) else None
      | Some t \<Rightarrow> Some (foldl (total_step P n) t es))"
proof (induction es arbitrary: totals)
  case Nil
  show ?case by (simp split: option.split)
next
  case (Cons en es)
  obtain m h where en: "en = (m, h)" by (cases en)
  show ?case
    unfolding foldl_Cons Cons.IH en map_of_add_total
    by (auto simp: total_step_def split: option.split)
qed

lemma keys_add_total:
  "map fst (add_total P totals en) =
     (if fst en \<in> fst ` set totals then map fst totals else map fst totals @ [fst en])"
  by (cases en) (simp add: add_total_def keys_dict_set)

lemma length_takeWhile_lt: "x \<in> set xs \<Longrightarrow> \<not> p x \<Longrightarrow> length (takeWhile p xs) < length xs"
  by (induction xs) auto

lemma first_pos_old:
  assumes "n \<in> fst ` set es"
  shows "first_pos n (es @ [en]) = first_pos n es \<and> first_pos n es < length es"
proof -
  from assms obtain x where x: "x \<in> set es" "\<not> fst x \<noteq> n" by auto
  then have "takeWhile (\<lambda>en. fst en \<noteq> n) (es @ [en]) = takeWhile (\<lambda>en. fst en \<noteq> n) es"
    by (rule takeWhile_append1)
  moreover have "length (takeWhile (\<lambda>en. fst en \<noteq> n) es) < length es"
    using x by (rule length_takeWhile_lt)
  ultimately show ?thesis by (simp add: first_pos_def)
qed

lemma first_pos_new:
  assumes "fst en \<notin> fst ` set es"
  shows "first_pos (fst en) (es @ [en]) = length es"
proof -
  have "takeWhile (\<lambda>x. fst x \<noteq> fst en) (es @ [en]) = es @ takeWhile (\<lambda>x. fst x \<noteq> fst en) [en]"
    using assms by (intro takeWhile_append2) (metis image_eqI)
  then show ?thesis by (simp add: first_pos_def)
qed

lemma keys_first_seen:
  "distinct (map fst (foldl (add_total P) [] es))
   \<and> set (map fst (foldl (add_total P) [] es)) = fst ` set es
   \<and> sorted_wrt (\<lambda>a b. first_pos a es < first_pos b es) (map fst (foldl (add_total P) [] es))"
proof (induction es rule: rev_induct)
  case Nil
  show ?case by simp
next
  case (snoc en es)
  let ?t = "foldl (add_total P) [] es"
  from snoc have d: "distinct (map fst ?t)" and s: "set (map fst ?t) = fst ` set es"
    and o: "sorted_wrt (\<lambda>a b. first_pos a es < first_pos b es) (map fst ?t)"
    by simp_all
  have o': "sorted_wrt (\<lambda>a b. first_pos a (es @ [en]) < first_pos b (es @ [en])) (map fst ?t)"
    using o s by (auto simp: first_pos_old elim!: sorted_wrt_mono_rel[rotated])
  show ?case
  proof (cases "fst en \<in> fst ` set es")
    case True
    then have "map fst (foldl (add_total P) [] (es @ [en])) = map fst ?t"
      using s by (simp add: keys_add_total)
    with d s o' True show ?thesis by auto
  next
    case False
    then have k: "map fst (foldl (add_total P) [] (es @ [en])) = map fst ?t @ [fst en]"
      using s by (simp add: keys_add_total)
    have "\<forall>a \<in> set (map fst ?t). first_pos a (es @ [en]) < first_pos (fst en) (es @ [en])"
      using s False by (simp add: first_pos_old first_pos_new)
    with d s o' False show ?thesis
      unfolding k by (auto simp: sorted_wrt_append)
  qed
qed

lemma sorted_wrt_filter_iff:
  "sorted_wrt R (filter p xs) \<longleftrightarrow> sorted_wrt (\<lambda>a b. p a \<and> p b \<longrightarrow> R a b) xs"
  by (induction xs) auto

lemma stable_descending_order:
  "sorted_wrt (\<lambda>a b. f b \<le> f a) (stable_descending f xs)"
proof -
  have "sorted (map f (sort_key f (rev xs)))" by simp
  then have "sorted_wrt (\<lambda>a b. f a \<le> f b) (sort_key f (rev xs))"
    by (simp add: sorted_wrt_map)
  then show ?thesis
    by (simp add: stable_descending_def sorted_wrt_rev)
qed

lemma stable_descending_filter:
  "filter (\<lambda>y. f y = k) (stable_descending f xs) = filter (\<lambda>y. f y = k) xs"
  by (simp add: stable_descending_def rev_filter[symmetric] sort_key_stable)

lemma stable_descending_keeps_order:
  assumes "sorted_wrt R xs"
  shows "sorted_wrt (\<lambda>a b. f a = f b \<longrightarrow> R a b) (stable_descending f xs)"
proof -
  have "f (stable_descending f xs ! i) = f (stable_descending f xs ! j) \<longrightarrow>
        R (stable_descending f xs ! i) (stable_descending f xs ! j)"
    if "i < j" "j < length (stable_descending f xs)" for i j
  proof
    let ?ys = "stable_descending f xs"
    let ?k = "f (?ys ! i)"
    assume eq: "f (?ys ! i) = f (?ys ! j)"
    have "sorted_wrt R (filter (\<lambda>y. f y = ?k) xs)"
      using assms by (rule sorted_wrt_filter)
    then have "sorted_wrt R (filter (\<lambda>y. f y = ?k) ?ys)"
      by (simp add: stable_descending_filter)
    then have "sorted_wrt (\<lambda>a b. f a = ?k \<and> f b = ?k \<longrightarrow> R a b) ?ys"
      by (simp add: sorted_wrt_filter_iff)
    then show "R (?ys ! i) (?ys ! j)"
      using that eq by (simp add: sorted_wrt_iff_nth_less)
  qed
  then show ?thesis by (simp add: sorted_wrt_iff_nth_less)
qed

lemma set_stable_descending: "set (stable_descending f xs) = set xs"
  by (simp add: stable_descending_def)

lemma length_stable_descending: "length (stable_descending f xs) = length xs"
  by (simp add: stable_descending_def)

lemma distinct_stable_descending:
  "distinct (map g (stable_descending f xs)) = distinct (map g xs)"
  by (simp add: stable_descending_def distinct_map)

lemma sorted_wrt_conj:
  "sorted_wrt (\<lambda>a b. A a b \<and> B a b) xs \<longleftrightarrow> sorted_wrt A xs \<and> sorted_wrt B xs"
  by (induction xs) auto

lemma totals_values:
  assumes "(n, t) \<in> set (foldl (add_total P) [] es)"
  shows "t = category_total P n es"
proof -
  let ?totals = "foldl (add_total P) [] es"
  have d: "distinct (map fst ?totals)" and k: "set (map fst ?totals) = fst ` set es"
    using keys_first_seen[of P es] by simp_all
  from assms d have "map_of ?totals n = Some t" by simp
  moreover from assms k have "n \<in> fst ` set es" by force
  ultimately show ?thesis
    by (simp add: map_of_foldl_add_total category_total_def)
qed

text \<open>
  C5, as amended. Let the two columns stand at the positions \<open>i_n\<close> and \<open>i_h\<close>
  of the header and let every row of the stream other than the header hold a number
  or an empty cell as its magnitude. If no category's summed magnitude is NaN,
  \<open>top_operators\<close> returns the first ten (all, if there are fewer) of the
  categories of these rows in descending order of their summed magnitudes, two
  categories with equal totals standing in the order in which they were first
  encountered: the names returned are distinct, each pair of them is in that order,
  and a category left out comes after every returned one in that order. An empty
  magnitude counts as \<open>0.0\<close>.
\<close>

theorem top_operators_ranking:
  assumes iter: "iter_rows P SHARED zf ''All'' = map Inr rows"
    and cols: "column_of header ''name'' i_n" "column_of header ''total_bet_handle'' i_h"
    and ent: "map (rank_entry P i_n i_h) (filter (\<lambda>r. r \<noteq> header) rows) = map Some es"
    and fin: "\<forall>n \<in> fst ` set es. category_total P n es \<noteq> NaN"
  shows "\<exists>names. top_operators P SHARED zf header = Inr names
       \<and> length names \<le> 10 \<and> length names = min 10 (card (fst ` set es))
       \<and> distinct names \<and> set names \<subseteq> fst ` set es
       \<and> (\<forall>i j. i < j \<and> j < length names \<longrightarrow>
             fle (category_total P (names ! j) es) (category_total P (names ! i) es)
           \<and> (category_total P (names ! i) es = category_total P (names ! j) es
                \<longrightarrow> first_pos (names ! i) es < first_pos (names ! j) es))
       \<and> (\<forall>n \<in> fst ` set es. n \<notin> set names \<longrightarrow>
             length names = 10
           \<and> (\<forall>m \<in> set names.
                 fle (category_total P n es) (category_total P m es)
               \<and> (category_total P n es = category_total P m es
                    \<longrightarrow> first_pos m es < first_pos n es)))"
proof -
  let ?R = "\<lambda>a b. first_pos a es < first_pos b es"
  let ?T = "\<lambda>n. category_total P n es"
  let ?Q = "\<lambda>m n. fle (?T n) (?T m) \<and> (?T m = ?T n \<longrightarrow> ?R m n)"
  define totals where "totals = foldl (add_total P) [] es"
  define S where "S = stable_descending (float_rank \<circ> snd) totals"
  define names where "names = map fst (take 10 S)"
  have tl: "top_loop P (column_index header) header [] (map Inr rows) = Inr totals"
    unfolding totals_def using cols ent by (rule top_loop_reads)
  have d: "distinct (map fst totals)" and k: "set (map fst totals) = fst ` set es"
    and o: "sorted_wrt ?R (map fst totals)"
    unfolding totals_def using keys_first_seen[of P es] by simp_all
  have v: "snd p = ?T (fst p)" if "p \<in> set totals" for p
    using that totals_values[of "fst p" "snd p" P es] by (simp add: totals_def)
  have nn: "snd p \<noteq> NaN" if "p \<in> set totals" for p
  proof -
    from that k have "fst p \<in> fst ` set es" by force
    with fin v[OF that] show ?thesis by auto
  qed
  have "sorted_reverse flt snd totals = S"
    unfolding S_def using nn by (intro sorted_reverse_rank) simp
  with tl have run: "top_operators P SHARED zf header = Inr names"
    by (simp add: top_operators_def iter names_def)
  have setS: "set S = set totals" unfolding S_def by (rule set_stable_descending)
  have lenS: "length S = card (fst ` set es)"
  proof -
    have "length S = length (map fst totals)"
      by (simp add: S_def length_stable_descending)
    also have "\<dots> = card (set (map fst totals))"
      using d by (rule distinct_card[symmetric])
    finally show ?thesis by (simp only: k)
  qed
  have desc: "sorted_wrt (\<lambda>a b. (float_rank \<circ> snd) b \<le> (float_rank \<circ> snd) a) S"
    unfolding S_def by (rule stable_descending_order)
  have "sorted_wrt (\<lambda>a b. ?R (fst a) (fst b)) totals"
    using o by (simp add: sorted_wrt_map)
  then have stab: "sorted_wrt (\<lambda>a b. (float_rank \<circ> snd) a = (float_rank \<circ> snd) b
      \<longrightarrow> ?R (fst a) (fst b)) S"
    unfolding S_def by (rule stable_descending_keeps_order)
  have "sorted_wrt (\<lambda>a b. (float_rank \<circ> snd) b \<le> (float_rank \<circ> snd) a
      \<and> ((float_rank \<circ> snd) a = (float_rank \<circ> snd) b \<longrightarrow> ?R (fst a) (fst b))) S"
    using desc stab by (simp add: sorted_wrt_conj)
  then have sortedS: "sorted_wrt (\<lambda>a b. ?Q (fst a) (fst b)) S"
  proof (rule sorted_wrt_mono_rel[rotated])
    fix a b
    assume a: "a \<in> set S" and b: "b \<in> set S"
      and r: "(float_rank \<circ> snd) b \<le> (float_rank \<circ> snd) a
        \<and> ((float_rank \<circ> snd) a = (float_rank \<circ> snd) b \<longrightarrow> ?R (fst a) (fst b))"
    from a b setS have ta: "snd a = ?T (fst a)" "snd a \<noteq> NaN"
      and tb: "snd b = ?T (fst b)" "snd b \<noteq> NaN"
      using v nn by simp_all
    from r tb(2) ta(2) have "fle (snd b) (snd a)" by (simp add: fle_rank)
    moreover from r have "snd a = snd b \<longrightarrow> ?R (fst a) (fst b)" by simp
    ultimately show "?Q (fst a) (fst b)" by (simp add: ta(1)[symmetric] tb(1)[symmetric])
  qed
  then have "sorted_wrt (\<lambda>a b. ?Q (fst a) (fst b)) (take 10 S)"
    by (rule sorted_wrt_take)
  then have "sorted_wrt ?Q names"
    by (simp add: names_def sorted_wrt_map)
  then have order: "\<forall>i j. i < j \<and> j < length names \<longrightarrow> ?Q (names ! i) (names ! j)"
    by (simp add: sorted_wrt_iff_nth_less)
  have len: "length names = min 10 (card (fst ` set es))"
    by (simp add: names_def lenS min.commute)
  then have len10: "length names \<le> 10" by simp
  have "distinct (map fst S)"
    using d by (simp add: S_def distinct_stable_descending)
  then have dn: "distinct names"
    unfolding names_def by (metis distinct_take take_map)
  have sub: "set names \<subseteq> fst ` set es"
  proof -
    have "set names \<subseteq> fst ` set S"
      unfolding names_def by (metis image_mono list.set_map set_take_subset)
    then show ?thesis using k setS by simp
  qed
  have out: "length names = 10 \<and> (\<forall>m \<in> set names. ?Q m n)"
    if n: "n \<in> fst ` set es" "n \<notin> set names" for n
  proof -
    from n(1) k setS obtain p where p: "p \<in> set S" "fst p = n" by force
    have split: "S = take 10 S @ drop 10 S" by simp
    from n(2) p have "p \<notin> set (take 10 S)" by (force simp: names_def)
    with p(1) have pd: "p \<in> set (drop 10 S)"
      by (metis Un_iff set_append split)
    then have "10 < length S" by (cases "10 < length S") auto
    then have l: "length names = 10" by (simp add: names_def)
    from sortedS have "sorted_wrt (\<lambda>a b. ?Q (fst a) (fst b)) (take 10 S @ drop 10 S)" by simp
    then have "\<forall>x \<in> set (take 10 S). \<forall>y \<in> set (drop 10 S). ?Q (fst x) (fst y)"
      unfolding sorted_wrt_append by blast
    then have "\<forall>x \<in> set (take 10 S). ?Q (fst x) n"
      using pd p(2) by blast
    then have "\<forall>m \<in> set names. ?Q m n" by (simp add: names_def)
    with l show ?thesis by simp
  qed
  show ?thesis
  proof (intro exI[of _ names] conjI ballI impI allI)
    show "top_operators P SHARED zf header = Inr names" by (rule run)
    show "length names \<le> 10" by (rule len10)
    show "length names = min 10 (card (fst ` set es))" by (rule len)
    show "distinct names" by (rule dn)
    show "set names \<subseteq> fst ` set es" by (rule sub)
  next
    fix i j assume "i < j \<and> j < length names"
    with order have q: "?Q (names ! i) (names ! j)" by blast
    from q show "fle (?T (names ! j)) (?T (names ! i))" by blast
    assume "?T (names ! i) = ?T (names ! j)"
    with q show "?R (names ! i) (names ! j)" by blast
  next
    fix n assume n: "n \<in> fst ` set es" "n \<notin> set names"
    from out[OF n] show "length names = 10" by blast
    fix m assume m: "m \<in> set names"
    with out[OF n] have q: "?Q m n" by blast
    from q show "fle (?T n) (?T m)" by blast
    assume "?T n = ?T m"
    with q show "?R m n" by simp
  qed
qed

lemma tie_iter:
  "iter_rows py64 [] tie_zf ''All'' = map Inr (map (map Some) (tie_header # tie_rows))"
  by (simp add: tie_zf_def tie_header_def tie_rows_def sheet_eval)

lemma tie_columns:
  "column_of (map Some tie_header) ''name'' 0"
  "column_of (map Some tie_header) ''total_bet_handle'' 1"
  by (simp_all add: column_of_def tie_header_def)

lemma tie_parse:
  "dec_float ''60'' = Some (Fin 60)" "dec_float ''100'' = Some (Fin 100)"
  "dec_float ''40'' = Some (Fin 40)"
  by (simp_all add: py64_eval round64_eval)

lemma tie_cells:
  "map (rank_entry py64 0 1)
     (filter (\<lambda>r. r \<noteq> map Some tie_header) (map (map Some) (tie_header # tie_rows)))
   = map Some tie_entries"
  by (simp add: tie_header_def tie_rows_def tie_entries_def cells_eval py64_def tie_parse)

lemma tie_sums:
  "round64 60 = Fin 60" "round64 100 = Fin 100" "round64 0 = Fin 0"
  by (simp_all add: round64_eval)

lemma tie_totals:
  "category_total py64 (Some ''A'') tie_entries = Fin 100"
  "category_total py64 (Some ''B'') tie_entries = Fin 100"
  "category_total py64 (Some ''C'') tie_entries = Fin 0"
  by (simp_all add: category_total_def total_step_def tie_entries_def py64_def tie_sums)

lemma tie_categories: "fst ` set tie_entries = {Some ''A'', Some ''B'', Some ''C''}"
  by (auto simp: tie_entries_def)

theorem top_operators_ranking_witness:
  "top_operators py64 [] tie_zf (map Some tie_header) = Inr [Some ''A'', Some ''B'', Some ''C'']
   \<and> category_total py64 (Some ''A'') tie_entries = Fin 100
   \<and> category_total py64 (Some ''B'') tie_entries = Fin 100
   \<and> first_pos (Some ''A'') tie_entries < first_pos (Some ''B'') tie_entries"
proof -
  have fin: "\<forall>n \<in> fst ` set tie_entries. category_total py64 n tie_entries \<noteq> NaN"
    by (simp add: tie_categories tie_totals)
  from top_operators_ranking [OF tie_iter tie_columns tie_cells fin]
  obtain names where run: "top_operators py64 [] tie_zf (map Some tie_header) = Inr names"
    and len: "length names = min 10 (card (fst ` set tie_entries))"
    and dn: "distinct names" and sub: "set names \<subseteq> fst ` set tie_entries"
    and order: "\<forall>i j. i < j \<and> j < length names \<longrightarrow>
             fle (category_total py64 (names ! j) tie_entries)
                 (category_total py64 (names ! i) tie_entries)
           \<and> (category_total py64 (names ! i) tie_entries
                = category_total py64 (names ! j) tie_entries
                \<longrightarrow> first_pos (names ! i) tie_entries < first_pos (names ! j) tie_entries)"
    by blast
  have names: "names = [Some ''A'', Some ''B'', Some ''C'']"
  proof -
    have "top_operators py64 [] tie_zf (map Some tie_header)
        = Inr [Some ''A'', Some ''B'', Some ''C'']"
      unfolding top_operators_def tie_iter
      by (simp add: tie_header_def tie_rows_def top_entry_def add_total_def row_eval
          sorted_reverse_def py_sorted_def py64_def tie_parse tie_sums py_float_def truthy_def)
    with run show ?thesis by simp
  qed
  from order names have "category_total py64 (Some ''A'') tie_entries
        = category_total py64 (Some ''B'') tie_entries
      \<longrightarrow> first_pos (Some ''A'') tie_entries < first_pos (Some ''B'') tie_entries"
    by force
  with run names show ?thesis by (simp add: tie_totals)
qed

lemma nan_iter:
  "iter_rows py64 [] nan_zf ''All'' = map Inr (map (map Some) (tie_header # nan_rows))"
  by (simp add: nan_zf_def tie_header_def nan_rows_def sheet_eval)

lemma nan_parse:
  "dec_float ''1'' = Some (Fin 1)" "dec_float ''nan'' = Some NaN" "dec_float ''2'' = Some (Fin 2)"
  "round64 1 = Fin 1" "round64 2 = Fin 2"
  by (simp_all add: py64_eval round64_eval)

text \<open>
  C5 fails as stated: \<open>float\<close> reads the magnitude \<open>nan\<close>, every comparison with
  the total NaN is false, and the sort leaves the categories as they are: the
  category with the total \<open>1.0\<close> is returned before the one with \<open>2.0\<close>.
\<close>

theorem nan_total_breaks_order:
  "top_operators py64 [] nan_zf (map Some tie_header) = Inr [Some ''A'', Some ''B'', Some ''C'']
   \<and> map (rank_entry py64 0 1) (map (map Some) nan_rows) = map Some nan_entries
   \<and> category_total py64 (Some ''A'') nan_entries = Fin 1
   \<and> category_total py64 (Some ''B'') nan_entries = NaN
   \<and> category_total py64 (Some ''C'') nan_entries = Fin 2
   \<and> flt (Fin 1) (Fin 2)"
proof -
  have "top_operators py64 [] nan_zf (map Some tie_header)
      = Inr [Some ''A'', Some ''B'', Some ''C'']"
    unfolding top_operators_def nan_iter
    by (simp add: tie_header_def nan_rows_def top_entry_def add_total_def row_eval
        sorted_reverse_def py_sorted_def py64_def nan_parse py_float_def truthy_def)
  moreover have "map (rank_entry py64 0 1) (map (map Some) nan_rows) = map Some nan_entries"
    by (simp add: nan_rows_def nan_entries_def cells_eval py64_def nan_parse)
  moreover have "category_total py64 (Some ''A'') nan_entries = Fin 1"
    "category_total py64 (Some ''B'') nan_entries = NaN"
    "category_total py64 (Some ''C'') nan_entries = Fin 2"
    by (simp_all add: category_total_def total_step_def nan_entries_def py64_def nan_parse)
  ultimately show ?thesis by simp
qed

section \<open>Trailing window\<close>

lemma queue_step:
  assumes "n < length vs" and "1 \<le> w"
  shows "(if w < length (drop (n - min n w) (take n vs) @ [vs ! n])
         then tl (drop (n - min n w) (take n vs) @ [vs ! n])
         else drop (n - min n w) (take n vs) @ [vs ! n])
       = drop (Suc n - min (Suc n) w) (take (Suc n) vs)"
proof (cases "w \<le> n")
  case True
  with assms have len: "length (drop (n - min n w) (take n vs)) = w"
    by (simp add: min_def)
  from True assms have ne: "drop (n - w) (take n vs) \<noteq> []" by simp
  have "tl (drop (n - w) (take n vs) @ [vs ! n]) = tl (drop (n - w) (take n vs)) @ [vs ! n]"
    using ne by simp
  also have "tl (drop (n - w) (take n vs)) = drop (Suc (n - w)) (take n vs)"
    by (simp add: tl_drop drop_Suc)
  also have "drop (Suc (n - w)) (take n vs) @ [vs ! n] = drop (Suc n - w) (take (Suc n) vs)"
    using True assms by (simp add: take_Suc_conv_app_nth Suc_diff_le)
  finally show ?thesis using True len assms by (simp add: min_def)
next
  case False
  with assms show ?thesis
    by (simp add: min_def take_Suc_conv_app_nth)
qed

lemma queue_head:
  assumes "n < length vs" and "1 \<le> w" and "w \<le> n"
  shows "hd (drop (n - min n w) (take n vs) @ [vs ! n]) = vs ! (n - w)"
proof -
  from assms have lt: "n - w < length (take n vs)" by simp
  from assms have ne: "drop (n - w) (take n vs) \<noteq> []" by (auto simp: min_def)
  have "hd (drop (n - w) (take n vs) @ [vs ! n]) = hd (drop (n - w) (take n vs))"
    using ne by (rule hd_append2)
  also have "\<dots> = take n vs ! (n - w)"
    using lt by (rule hd_drop_conv_nth)
  also have "\<dots> = vs ! (n - w)"
    using assms by (intro nth_take) simp
  finally show ?thesis using assms(3) by (simp only: min_absorb2)
qed

lemma length_queue: "n \<le> length vs \<Longrightarrow> length (drop (n - min n w) (take n vs)) = min n w"
  by (simp add: min_def)

lemma ta_loop_run:
  assumes d: "distinct ks" and w1: "1 \<le> window"
    and look: "\<forall>k \<in> set ks. dict_get series k = Inr (f k)"
    and vs: "vs = map f ks" and w: "w = nat window"
  shows "n \<le> length ks \<Longrightarrow>
     ta_loop P series window (drop (n - min n w) (take n vs)) (run_total P w vs n)
       (map (\<lambda>i. (ks ! i, trailing_value P w vs i)) [0..<n]) (drop n ks)
     = Inr (map (\<lambda>i. (ks ! i, trailing_value P w vs i)) [0..<length ks])"
proof (induction "length ks - n" arbitrary: n)
  case 0
  then have "n = length ks" by simp
  then show ?case by simp
next
  case (Suc m)
  then have n: "n < length ks" by simp
  then have nv: "n < length vs" by (simp add: vs)
  from w1 w have w': "1 \<le> w" by simp
  let ?q = "drop (n - min n w) (take n vs)"
  let ?res = "map (\<lambda>i. (ks ! i, trailing_value P w vs i)) [0..<n]"
  have dk: "drop n ks = ks ! n # drop (Suc n) ks"
    using n by (simp add: Cons_nth_drop_Suc)
  have get: "dict_get series (ks ! n) = Inr (vs ! n)"
    using look n by (simp add: vs)
  have cond: "window < int (length (?q @ [vs ! n])) \<longleftrightarrow> w \<le> n"
    using w1 w nv by (auto simp: min_def)
  have cond': "w < length (?q @ [vs ! n]) \<longleftrightarrow> w \<le> n"
    using w' nv by (auto simp: min_def)
  have q2: "(if window < int (length (?q @ [vs ! n])) then tl (?q @ [vs ! n]) else ?q @ [vs ! n])
        = drop (Suc n - min (Suc n) w) (take (Suc n) vs)"
    using queue_step[OF nv w'] cond cond' by simp
  have t2: "(if window < int (length (?q @ [vs ! n]))
             then fsub P (fadd P (run_total P w vs n) (vs ! n)) (hd (?q @ [vs ! n]))
             else fadd P (run_total P w vs n) (vs ! n))
        = run_total P w vs (Suc n)"
    using cond queue_head[OF nv w'] by (simp add: Let_def)
  have lq: "length (drop (Suc n - min (Suc n) w) (take (Suc n) vs)) = min (Suc n) w"
    using nv by (intro length_queue) simp
  have pos: "Fin (of_nat (min (Suc n) w)) \<noteq> Fin 0"
    using w' by simp
  have dv: "fdiv P (run_total P w vs (Suc n)) (Fin (of_nat (min (Suc n) w)))
      = Inr (trailing_value P w vs n)"
    using pos by (simp only: fdiv_def trailing_value_def if_False)
  have fresh: "ks ! n \<notin> fst ` set ?res"
  proof
    assume "ks ! n \<in> fst ` set ?res"
    then obtain i where "i < n" "ks ! i = ks ! n" by auto
    with d n show False by (simp add: nth_eq_iff_index_eq)
  qed
  have res: "dict_set ?res (ks ! n) (trailing_value P w vs n)
        = map (\<lambda>i. (ks ! i, trailing_value P w vs i)) [0..<Suc n]"
    using dict_set_new[OF fresh] by simp
  have step: "ta_loop P series window ?q (run_total P w vs n) ?res (drop n ks)
      = ta_loop P series window (drop (Suc n - min (Suc n) w) (take (Suc n) vs))
          (run_total P w vs (Suc n)) (map (\<lambda>i. (ks ! i, trailing_value P w vs i)) [0..<Suc n])
          (drop (Suc n) ks)"
    unfolding dk ta_loop.simps get
    by (simp only: sum.case Let_def q2 t2 lq dv res)
  from Suc.hyps(2) n have "m = length ks - Suc n" by simp
  from Suc.hyps(1)[OF this] n show ?case
    unfolding step by simp
qed

lemma run_total_exact:
  assumes ex: "\<forall>x. rnd P x = Fin x" and w: "1 \<le> w"
  shows "n \<le> length xs \<Longrightarrow>
     run_total P w (map Fin xs) n = Fin (sum_list (drop (n - min n w) (take n xs)))"
proof (induction n)
  case 0
  show ?case by simp
next
  case (Suc n)
  then have nv: "n < length xs"
    and ih: "run_total P w (map Fin xs) n = Fin (sum_list (drop (n - min n w) (take n xs)))"
    by simp_all
  show ?case
  proof (cases "w \<le> n")
    case True
    then have lt: "n - w < length (take n xs)" using nv w by simp
    have "drop (n - w) (take n xs) = take n xs ! (n - w) # drop (Suc (n - w)) (take n xs)"
      using lt by (rule Cons_nth_drop_Suc[symmetric])
    moreover have "take n xs ! (n - w) = xs ! (n - w)"
      using w True by (intro nth_take) simp
    ultimately have a: "sum_list (drop (n - w) (take n xs))
        = xs ! (n - w) + sum_list (drop (Suc (n - w)) (take n xs))"
      by simp
    have b: "drop (Suc n - w) (take (Suc n) xs) = drop (Suc (n - w)) (take n xs) @ [xs ! n]"
      using True nv w by (simp add: take_Suc_conv_app_nth Suc_diff_le)
    have mn: "min n w = w" "min (Suc n) w = w" using True by simp_all
    from True nv have old: "n - w < length xs" by simp
    have "run_total P w (map Fin xs) (Suc n)
        = Fin (sum_list (drop (n - w) (take n xs)) + xs ! n - xs ! (n - w))"
      using True ex nv old by (simp add: ih mn fsub_Fin Let_def)
    also have "sum_list (drop (n - w) (take n xs)) + xs ! n - xs ! (n - w)
        = sum_list (drop (Suc (n - w)) (take n xs)) + xs ! n"
      using a by simp
    also have "\<dots> = sum_list (drop (Suc n - min (Suc n) w) (take (Suc n) xs))"
      using b by (simp add: mn)
    finally show ?thesis .
  next
    case False
    then show ?thesis
      using ih ex nv by (simp add: min_def take_Suc_conv_app_nth Let_def)
  qed
qed

lemma sort_keys_same:
  fixes series :: "(period \<times> pyfloat) list"
  assumes "distinct (map fst series)" and "distinct (map fst series')"
    and "map_of series' = map_of series"
  shows "sort (map fst series') = sort (map fst series)"
proof -
  have "set (map fst series') = set (map fst series)"
    using assms(3) by (metis dom_map_of_conv_image_fst list.set_map)
  then have "set (sort (map fst series')) = set (sort (map fst series))" by simp
  moreover have "distinct (sort (map fst series'))" "distinct (sort (map fst series))"
    using assms by simp_all
  ultimately show ?thesis
    by (intro sorted_distinct_set_unique) simp_all
qed

lemma ta_loop_cong:
  "map_of series' = map_of series \<Longrightarrow>
   ta_loop P series' window q tot result ks = ta_loop P series window q tot result ks"
proof (induction ks arbitrary: q tot result)
  case Nil
  show ?case by simp
next
  case (Cons k ks)
  have "dict_get series' k = dict_get series k"
    using Cons.prems by (simp add: dict_get_def)
  then show ?case
    using Cons.IH[OF Cons.prems] by (simp cong: sum.case_cong)
qed

text \<open>
  C2, as amended. For a series with one value per period and a window
  \<open>w \<ge> 1\<close>, \<open>trailing_average\<close> returns one entry per period of the series, in
  ascending order of the periods, whatever the order of the series itself. The
  value of the \<open>i\<close>-th period is the running total after \<open>i + 1\<close> values divided
  by \<open>min (i + 1) w\<close>; the running total adds each value and, once more than
  \<open>w\<close> values have been queued, subtracts the one that leaves the queue. With
  exact arithmetic on finite values it is the sum of the most recent
  \<open>min (i + 1) w\<close> values divided by \<open>min (i + 1) w\<close>.
\<close>

theorem trailing_average_value:
  assumes d: "distinct (map fst series)" and w1: "1 \<le> window"
    and ks: "ks = sort (map fst series)" and vs: "vs = sorted_values series"
    and w: "w = nat window"
  shows "\<exists>res. trailing_average P series window = Inr res
      \<and> map fst res = ks \<and> distinct (map fst res) \<and> set (map fst res) = set (map fst series)
      \<and> (\<forall>i<length ks.
            fdiv P (run_total P w vs (Suc i)) (Fin (of_nat (min (Suc i) w))) = Inr (snd (res ! i)))
      \<and> (\<forall>xs. (\<forall>x. rnd P x = Fin x) \<and> vs = map Fin xs \<longrightarrow>
           (\<forall>i<length ks. length (recent w xs i) = min (Suc i) w
              \<and> snd (res ! i) = Fin (sum_list (recent w xs i) / of_nat (min (Suc i) w))))
      \<and> (\<forall>series'. distinct (map fst series') \<and> map_of series' = map_of series
            \<longrightarrow> trailing_average P series' window = trailing_average P series window)"
proof -
  let ?f = "\<lambda>k. the (map_of series k)"
  define res where "res = map (\<lambda>i. (ks ! i, trailing_value P w vs i)) [0..<length ks]"
  have dk: "distinct ks" using d by (simp add: ks)
  have look: "\<forall>k \<in> set ks. dict_get series k = Inr (?f k)"
  proof
    fix k assume "k \<in> set ks"
    then have "k \<in> fst ` set series" by (simp add: ks)
    then obtain v where "map_of series k = Some v"
      by (metis domD dom_map_of_conv_image_fst)
    then show "dict_get series k = Inr (?f k)" by (simp add: dict_get_def)
  qed
  have vs': "vs = map ?f ks" by (simp add: vs sorted_values_def ks)
  have lv: "length vs = length ks" by (simp add: vs')
  from w1 w have w': "1 \<le> w" by simp
  have "ta_loop P series window (drop (0 - min 0 w) (take 0 vs)) (run_total P w vs 0)
       (map (\<lambda>i. (ks ! i, trailing_value P w vs i)) [0..<0]) (drop 0 ks) = Inr res"
    unfolding res_def by (rule ta_loop_run[OF dk w1 look vs' w]) simp
  then have "ta_loop P series window [] (Fin 0) [] ks = Inr res" by simp
  then have run: "trailing_average P series window = Inr res"
    unfolding trailing_average_def ks .
  have keys: "map fst res = ks"
    by (simp add: res_def comp_def map_nth)
  have nth: "snd (res ! i) = trailing_value P w vs i" if "i < length ks" for i
    using that by (simp add: res_def)
  have val: "fdiv P (run_total P w vs (Suc i)) (Fin (of_nat (min (Suc i) w))) = Inr (snd (res ! i))"
    if "i < length ks" for i
  proof -
    have "Fin (of_nat (min (Suc i) w)) \<noteq> Fin 0" using w' by simp
    then have "fdiv P (run_total P w vs (Suc i)) (Fin (of_nat (min (Suc i) w)))
        = Inr (trailing_value P w vs i)"
      by (simp only: fdiv_def trailing_value_def if_False)
    then show ?thesis by (simp only: nth[OF that])
  qed
  have exact: "length (recent w xs i) = min (Suc i) w
      \<and> snd (res ! i) = Fin (sum_list (recent w xs i) / of_nat (min (Suc i) w))"
    if ex: "\<forall>x. rnd P x = Fin x" and xs: "vs = map Fin xs" and i: "i < length ks" for xs i
  proof -
    from i lv xs have le: "Suc i \<le> length xs" by simp
    have rt: "run_total P w (map Fin xs) (Suc i) = Fin (sum_list (recent w xs i))"
      unfolding recent_def using ex w' le by (rule run_total_exact)
    have len: "length (recent w xs i) = min (Suc i) w"
      unfolding recent_def using le by (rule length_queue)
    have "trailing_value P w vs i = Fin (sum_list (recent w xs i) / of_nat (min (Suc i) w))"
      unfolding trailing_value_def xs rt using ex by simp
    with len show ?thesis by (simp only: nth[OF i])
  qed
  have same: "trailing_average P series' window = trailing_average P series window"
    if "distinct (map fst series') \<and> map_of series' = map_of series" for series'
  proof -
    from that d have "sort (map fst series') = sort (map fst series)"
      by (intro sort_keys_same) simp_all
    moreover from that have "ta_loop P series' window [] (Fin 0) [] (sort (map fst series))
        = ta_loop P series window [] (Fin 0) [] (sort (map fst series))"
      by (intro ta_loop_cong) simp
    ultimately show ?thesis by (simp only: trailing_average_def)
  qed
  show ?thesis
  proof (intro exI[of _ res] conjI allI impI)
    show "trailing_average P series window = Inr res" by (rule run)
    show "map fst res = ks" by (rule keys)
    show "distinct (map fst res)" by (simp only: keys dk)
    show "set (map fst res) = set (map fst series)" by (simp add: keys ks)
  next
    fix i assume "i < length ks"
    then show "fdiv P (run_total P w vs (Suc i)) (Fin (of_nat (min (Suc i) w)))
        = Inr (snd (res ! i))"
      by (rule val)
  next
    fix xs i
    assume a: "(\<forall>x. rnd P x = Fin x) \<and> vs = map Fin xs" and i: "i < length ks"
    from a have ex: "\<forall>x. rnd P x = Fin x" and xs: "vs = map Fin xs" by simp_all
    from exact[OF ex xs i] show "length (recent w xs i) = min (Suc i) w" by (rule conjunct1)
    from exact[OF ex xs i]
    show "snd (res ! i) = Fin (sum_list (recent w xs i) / of_nat (min (Suc i) w))"
      by (rule conjunct2)
  next
    fix series'
    assume "distinct (map fst series') \<and> map_of series' = map_of series"
    then show "trailing_average P series' window = trailing_average P series window"
      by (rule same)
  qed
qed

lemma big_keys: "sort (map fst big_series) = [(2024, 1), (2024, 2)]"
  by (simp add: big_series_def)

text \<open>
  C2 fails as stated: in floating point the running total is not the sum of the
  queued values. After \<open>1e16\<close> and \<open>1.0\<close> with a window of one, the total is
  \<open>1e16 + 1.0 - 1e16 = 0.0\<close>, and the second period gets \<open>0.0\<close> where the
  most recent value is \<open>1.0\<close>.
\<close>

theorem running_sum_loses_value:
  "trailing_average py64 big_series 1
     = Inr [((2024, 1), Fin 10000000000000000), ((2024, 2), Fin 0)]
   \<and> sorted_values big_series = [Fin 10000000000000000, Fin 1]
   \<and> sum_list (recent 1 [10000000000000000, 1 :: rat] 1) / of_nat (min 2 1) = 1"
proof -
  have r: "round64 10000000000000000 = Fin 10000000000000000"
    "round64 10000000000000001 = Fin 10000000000000000" "round64 0 = Fin 0"
    by (simp_all add: round64_eval)
  have "trailing_average py64 big_series 1
      = Inr [((2024, 1), Fin 10000000000000000), ((2024, 2), Fin 0)]"
    unfolding trailing_average_def big_keys
    by (simp add: big_series_def dict_get_def fsub_def fdiv_def py64_def r)
  moreover have "sorted_values big_series = [Fin 10000000000000000, Fin 1]"
    unfolding sorted_values_def big_keys by (simp add: big_series_def)
  ultimately show ?thesis by (simp add: recent_def)
qed

lemma three_keys: "sort (map fst three_series) = [(2024, 1), (2024, 2), (2024, 3)]"
  by (simp add: three_series_def)

lemma three_values: "sorted_values three_series = map Fin [1, 2, 3]"
  unfolding sorted_values_def three_keys by (simp add: three_series_def)

theorem trailing_average_value_witness:
  "\<exists>res. trailing_average exact_python three_series 12 = Inr res
     \<and> map fst res = [(2024, 1), (2024, 2), (2024, 3)]
     \<and> snd (res ! 0) = Fin 1 \<and> snd (res ! 1) = Fin (3 / 2) \<and> snd (res ! 2) = Fin 2"
proof -
  have d: "distinct (map fst three_series)" by (simp add: three_series_def)
  have w: "(1::int) \<le> 12" by simp
  let ?ks = "[(2024, 1), (2024, 2), (2024, 3)] :: period list"
  have ex: "(\<forall>x. rnd exact_python x = Fin x) \<and> map Fin [1, 2, 3] = map Fin [1, 2, 3 :: rat]"
    by (simp add: exact_python_def)
  from trailing_average_value [OF d w three_keys[symmetric] three_values[symmetric] refl,
      of exact_python]
  obtain res where run: "trailing_average exact_python three_series 12 = Inr res"
    and keys: "map fst res = [(2024, 1), (2024, 2), (2024, 3)]"
    and vals: "\<forall>xs. (\<forall>x. rnd exact_python x = Fin x) \<and> map Fin [1, 2, 3] = map Fin xs \<longrightarrow>
           (\<forall>i<length ?ks.
              length (recent (nat 12) xs i) = min (Suc i) (nat 12)
              \<and> snd (res ! i) = Fin (sum_list (recent (nat 12) xs i) / of_nat (min (Suc i) (nat 12))))"
    by (elim exE conjE)
  from vals ex have v: "\<forall>i<3. snd (res ! i)
      = Fin (sum_list (recent (nat 12) [1, 2, 3] i) / of_nat (min (Suc i) (nat 12)))"
    by (simp del: map_eq_Cons_conv list.map)
  have "snd (res ! 0) = Fin 1" and "snd (res ! 1) = Fin (3 / 2)" and "snd (res ! 2) = Fin 2"
    using v by (simp_all add: recent_def)
  with run keys show ?thesis by (intro exI[of _ res]) simp
qed

end
